theory Spec2Isabelle
  imports Main "HOL-Library.Word" "HOL-Library.Char_ord" "HOL-Library.List_Lexorder"
    "HOL-Library.AList" "HOL-Library.Multiset"
begin

unbundle bit_operations_syntax

section \<open>Data model of the distributor's read path\<close>

text \<open>
  A Go \<^verbatim>\<open>float64\<close> is kept as its IEEE-754 bit pattern. The only operation the merge code
  applies to a sample value is the comparison \<^verbatim>\<open>a[i] != b[i]\<close> of two structs, which on a
  float field is IEEE equality: a NaN differs from everything, itself included, and the two
  zeros are equal.
\<close>

type_synonym float64 = "64 word"

definition isNaN :: "float64 \<Rightarrow> bool" where
  "isNaN w = (w AND 0x7FF0000000000000 = 0x7FF0000000000000 \<and> w AND 0x000FFFFFFFFFFFFF \<noteq> 0)"

definition isZero :: "float64 \<Rightarrow> bool" where
  "isZero w = (w AND 0x7FFFFFFFFFFFFFFF = 0)"

definition float64_eq :: "float64 \<Rightarrow> float64 \<Rightarrow> bool" where
  "float64_eq x y = (\<not> isNaN x \<and> \<not> isNaN y \<and> (x = y \<or> (isZero x \<and> isZero y)))"

text \<open>
  \<^verbatim>\<open>cortexpb.Sample\<close>. The timestamp is an \<^verbatim>\<open>int64\<close>; the code only compares timestamps, it
  never computes with them, so it is an \<open>int\<close> here.
\<close>

record Sample =
  Value :: float64
  TimestampMs :: int

text \<open>Go's \<^verbatim>\<open>==\<close> on two \<^verbatim>\<open>Sample\<close> structs: field by field.\<close>

definition sample_eq :: "Sample \<Rightarrow> Sample \<Rightarrow> bool" where
  "sample_eq x y =
     (float64_eq (Sample.Value x) (Sample.Value y) \<and> Sample.TimestampMs x = Sample.TimestampMs y)"

type_synonym LabelAdapter = "string \<times> string"

text \<open>\<^verbatim>\<open>cortexpb.Exemplar\<close>: a label set, a value and a timestamp.\<close>

record Exemplar =
  Labels :: "LabelAdapter list"
  Value :: float64
  TimestampMs :: int

section \<open>The sample merger\<close>

text \<open>
  \<^verbatim>\<open>sameSamples\<close>: the loop \<^verbatim>\<open>for i := 0; i < len(a); i++\<close> runs after the lengths were found
  equal, so \<open>b ! i\<close> is in range whenever \<open>a ! i\<close> is.
\<close>

function sameSamplesFrom :: "Sample list \<Rightarrow> Sample list \<Rightarrow> nat \<Rightarrow> bool" where
  "sameSamplesFrom a b i =
     (if i < length a
      then (if \<not> sample_eq (a ! i) (b ! i) then False else sameSamplesFrom a b (Suc i))
      else True)"
  by pat_completeness auto
termination
  by (relation "measure (\<lambda>(a, b, i). length a - i)") auto

declare sameSamplesFrom.simps [simp del]

definition sameSamples :: "Sample list \<Rightarrow> Sample list \<Rightarrow> bool" where
  "sameSamples a b = (if length a \<noteq> length b then False else sameSamplesFrom a b 0)"

text \<open>
  The merge loop of \<^verbatim>\<open>mergeSamples\<close>, on the indices \<open>i\<close>, \<open>j\<close> and the slice \<open>result\<close> as
  the source has them. It returns the three at the loop's exit.
\<close>

function mergeSamplesLoop ::
  "Sample list \<Rightarrow> Sample list \<Rightarrow> nat \<Rightarrow> nat \<Rightarrow> Sample list \<Rightarrow> nat \<times> nat \<times> Sample list" where
  "mergeSamplesLoop a b i j result =
     (if i < length a \<and> j < length b
      then (if Sample.TimestampMs (a ! i) < Sample.TimestampMs (b ! j)
            then mergeSamplesLoop a b (Suc i) j (result @ [a ! i])
            else if Sample.TimestampMs (a ! i) > Sample.TimestampMs (b ! j)
            then mergeSamplesLoop a b i (Suc j) (result @ [b ! j])
            else mergeSamplesLoop a b (Suc i) (Suc j) (result @ [a ! i]))
      else (i, j, result))"
  by pat_completeness auto
termination
  by (relation "measure (\<lambda>(a, b, i, j, result). (length a - i) + (length b - j))") auto

declare mergeSamplesLoop.simps [simp del]

definition mergeSamples :: "Sample list \<Rightarrow> Sample list \<Rightarrow> Sample list" where
  "mergeSamples a b =
     (if sameSamples a b then a
      else (case mergeSamplesLoop a b 0 0 [] of
              (i, j, result) \<Rightarrow> (result @ drop i a) @ drop j b))"

section \<open>A list view of the two-index merge\<close>

text \<open>
  Both merge loops of the file (samples and exemplars) walk two slices with one index each
  and compare timestamps only. \<open>mergeTs\<close> is that walk on the remaining suffixes; the
  loops are related to it below, and the properties of the merge are proved on it.
\<close>

fun mergeTs :: "('a \<Rightarrow> int) \<Rightarrow> 'a list \<Rightarrow> 'a list \<Rightarrow> 'a list" where
  "mergeTs ts [] ys = ys"
| "mergeTs ts (x # xs) [] = x # xs"
| "mergeTs ts (x # xs) (y # ys) =
     (if ts x < ts y then x # mergeTs ts xs (y # ys)
      else if ts x > ts y then y # mergeTs ts (x # xs) ys
      else x # mergeTs ts xs ys)"

section \<open>The exemplar merger and the exemplar response reconciler\<close>

text \<open>\<^verbatim>\<open>cortexpb.TimeSeries\<close>: a label set with its samples and its exemplars.\<close>

record TimeSeries =
  Labels :: "LabelAdapter list"
  Samples :: "Sample list"
  Exemplars :: "Exemplar list"

text \<open>The zero value of the struct, which Go returns when a map has no entry for a key.\<close>

definition zeroTimeSeries :: TimeSeries where
  "zeroTimeSeries = \<lparr>TimeSeries.Labels = [], Samples = [], Exemplars = []\<rparr>"

text \<open>The loop of \<^verbatim>\<open>mergeExemplarSets\<close>: the three branches compare the timestamps only.\<close>

function mergeExemplarSetsLoop ::
  "Exemplar list \<Rightarrow> Exemplar list \<Rightarrow> nat \<Rightarrow> nat \<Rightarrow> Exemplar list \<Rightarrow> nat \<times> nat \<times> Exemplar list" where
  "mergeExemplarSetsLoop a b i j result =
     (if i < length a \<and> j < length b
      then (if Exemplar.TimestampMs (a ! i) < Exemplar.TimestampMs (b ! j)
            then mergeExemplarSetsLoop a b (Suc i) j (result @ [a ! i])
            else if Exemplar.TimestampMs (a ! i) > Exemplar.TimestampMs (b ! j)
            then mergeExemplarSetsLoop a b i (Suc j) (result @ [b ! j])
            else mergeExemplarSetsLoop a b (Suc i) (Suc j) (result @ [a ! i]))
      else (i, j, result))"
  by pat_completeness auto
termination
  by (relation "measure (\<lambda>(a, b, i, j, result). (length a - i) + (length b - j))") auto

declare mergeExemplarSetsLoop.simps [simp del]

definition mergeExemplarSets :: "Exemplar list \<Rightarrow> Exemplar list \<Rightarrow> Exemplar list" where
  "mergeExemplarSets a b =
     (case mergeExemplarSetsLoop a b 0 0 [] of
        (i, j, result) \<Rightarrow> (result @ drop i a) @ drop j b)"

text \<open>
  A Go map is an association list with one pair per key here: \<open>map_of\<close> reads it,
  \<open>AList.update\<close> stores into it (in place for a key it has, at the end for a new one), and
  its length is \<^verbatim>\<open>len(m)\<close>. The order of the pairs is one of the orders a \<^verbatim>\<open>range\<close> over
  the map may take; nothing below depends on it unless it says so.
\<close>

type_synonym ('k, 'v) gomap = "('k \<times> 'v) list"

record ExemplarQueryResponse =
  Timeseries :: "TimeSeries list"

text \<open>
  The body of the inner loop of \<^verbatim>\<open>mergeExemplarQueryResponses\<close>, on the pair of \<^verbatim>\<open>keys\<close> and
  \<^verbatim>\<open>exemplarResults\<close>. The parameter \<open>lblsKey\<close> stands for
  \<^verbatim>\<open>string(cortexpb.FromLabelAdaptersToLabels(ts.Labels).Bytes(buf))\<close>, whose code is not
  among the sources.
\<close>

definition addExemplarSeries ::
  "(LabelAdapter list \<Rightarrow> string) \<Rightarrow> string list \<times> (string, TimeSeries) gomap \<Rightarrow> TimeSeries
   \<Rightarrow> string list \<times> (string, TimeSeries) gomap" where
  "addExemplarSeries lblsKey st ts =
     (case st of (keys, exemplarResults) \<Rightarrow>
        (let lbls = lblsKey (TimeSeries.Labels ts) in
         case map_of exemplarResults lbls of
           None \<Rightarrow> (keys @ [lbls], AList.update lbls ts exemplarResults)
         | Some e \<Rightarrow>
             (keys,
              AList.update lbls
                (e\<lparr>Exemplars := mergeExemplarSets (Exemplars e) (Exemplars ts)\<rparr>)
                exemplarResults)))"

text \<open>
  The last loop, \<^verbatim>\<open>for i, k := range keys { result[i] = exemplarResults[k] }\<close>, on a slice
  made with \<^verbatim>\<open>len(exemplarResults)\<close> zero values. An index past the end of \<^verbatim>\<open>result\<close> is a
  panic in Go: \<open>None\<close>.
\<close>

fun fillResult ::
  "(string, TimeSeries) gomap \<Rightarrow> TimeSeries list \<Rightarrow> nat \<Rightarrow> string list \<Rightarrow> TimeSeries list option" where
  "fillResult exemplarResults result i [] = Some result"
| "fillResult exemplarResults result i (k # ks) =
     (if i < length result
      then fillResult exemplarResults
             (result[i := (case map_of exemplarResults k of None \<Rightarrow> zeroTimeSeries | Some v \<Rightarrow> v)])
             (Suc i) ks
      else None)"

definition mergeExemplarQueryResponses ::
  "(LabelAdapter list \<Rightarrow> string) \<Rightarrow> ExemplarQueryResponse list \<Rightarrow> ExemplarQueryResponse option" where
  "mergeExemplarQueryResponses lblsKey results =
     (case foldl (\<lambda>st r. foldl (addExemplarSeries lblsKey) st (ExemplarQueryResponse.Timeseries r))
             ([], []) results of
        (keys, exemplarResults) \<Rightarrow>
          map_option (\<lambda>result. \<lparr>ExemplarQueryResponse.Timeseries = result\<rparr>)
            (fillResult exemplarResults
               (replicate (length exemplarResults) zeroTimeSeries) 0 (sort keys)))"

text \<open>
  An encoding of a label set to run the examples with; the theorems hold for every encoding.
\<close>

definition exampleKey :: "LabelAdapter list \<Rightarrow> string" where
  "exampleKey ls = concat (map (\<lambda>p. fst p @ ''='' @ snd p @ '','') ls)"

section \<open>The streaming query merge engine\<close>

subsection \<open>Messages\<close>

text \<open>
  \<^verbatim>\<open>ingester_client.TimeSeriesChunk\<close> and \<^verbatim>\<open>ingester_client.QueryStreamResponse\<close>. The chunk
  type is declared outside the sources and opaque to this code: a type parameter.
\<close>

record 'c TimeSeriesChunk =
  Labels :: "LabelAdapter list"
  Chunks :: "'c list"

definition zeroTimeSeriesChunk :: "'c TimeSeriesChunk" where
  "zeroTimeSeriesChunk = \<lparr>TimeSeriesChunk.Labels = [], Chunks = []\<rparr>"

record 'c QueryStreamResponse =
  Chunkseries :: "'c TimeSeriesChunk list"
  Timeseries :: "TimeSeries list"

subsection \<open>The aggregator's two folds\<close>

text \<open>
  The bodies of the two \<^verbatim>\<open>for _, series := range\<close> loops of the aggregator goroutine. The
  parameter \<open>keyOf\<close> stands for
  \<^verbatim>\<open>ingester_client.LabelsToKeyString(cortexpb.FromLabelAdaptersToLabels(series.Labels))\<close>,
  whose code is not among the sources.
\<close>

definition addChunkSeries ::
  "(LabelAdapter list \<Rightarrow> string) \<Rightarrow> (string, 'c TimeSeriesChunk) gomap \<Rightarrow> 'c TimeSeriesChunk
   \<Rightarrow> (string, 'c TimeSeriesChunk) gomap" where
  "addChunkSeries keyOf hashToChunkseries series =
     (let key = keyOf (TimeSeriesChunk.Labels series);
          existing = (case map_of hashToChunkseries key of
                        None \<Rightarrow> zeroTimeSeriesChunk | Some v \<Rightarrow> v);
          existing = existing\<lparr>TimeSeriesChunk.Labels := TimeSeriesChunk.Labels series\<rparr>;
          existing = existing\<lparr>Chunks := Chunks existing @ Chunks series\<rparr>
      in AList.update key existing hashToChunkseries)"

text \<open>
  A nil slice and an empty one are both \<open>[]\<close> here. The test \<^verbatim>\<open>existing.Samples == nil\<close>
  becomes a test for \<open>[]\<close>; on an empty non-nil slice the source calls
  \<^verbatim>\<open>mergeSamples\<close> instead, which returns the samples of \<open>series\<close> as well (lemma
  \<open>mergeSamples_Nil\<close> below).
\<close>

definition addTimeSeries ::
  "(LabelAdapter list \<Rightarrow> string) \<Rightarrow> (string, TimeSeries) gomap \<Rightarrow> TimeSeries
   \<Rightarrow> (string, TimeSeries) gomap" where
  "addTimeSeries keyOf hashToTimeSeries series =
     (let key = keyOf (TimeSeries.Labels series);
          existing = (case map_of hashToTimeSeries key of
                        None \<Rightarrow> zeroTimeSeries | Some v \<Rightarrow> v);
          existing = existing\<lparr>TimeSeries.Labels := TimeSeries.Labels series\<rparr>;
          existing = (if Samples existing = []
                      then existing\<lparr>Samples := Samples series\<rparr>
                      else existing\<lparr>Samples := mergeSamples (Samples existing) (Samples series)\<rparr>)
      in AList.update key existing hashToTimeSeries)"

subsection \<open>The engine as a transition system\<close>

text \<open>
  \<^verbatim>\<open>queryIngesterStream\<close> runs a main goroutine, the aggregator goroutine and the callbacks
  of \<^verbatim>\<open>replicationSet.Do\<close>. The state holds what they share: the two buffered channels (as
  queues), the two maps, the counter of the \<^verbatim>\<open>sync.WaitGroup\<close>, and where the main goroutine
  and the aggregator stand. The unbuffered \<^verbatim>\<open>doneCh\<close> holds nothing: a send on it and the
  receive are one step.
\<close>

datatype main_pc =
    FanOut      \<comment> \<open>inside \<^verbatim>\<open>replicationSet.Do\<close>: callbacks run\<close>
  | SendDone    \<comment> \<open>at \<^verbatim>\<open>doneCh <- struct{}{}\<close>\<close>
  | WgWait      \<comment> \<open>at \<^verbatim>\<open>wg.Wait()\<close>\<close>
  | AfterWait   \<comment> \<open>past \<^verbatim>\<open>wg.Wait()\<close>: closes \<^verbatim>\<open>doneCh\<close>, builds the response, returns\<close>

datatype agg_pc =
    Selecting     \<comment> \<open>in the \<^verbatim>\<open>for { select { ... } }\<close> loop\<close>
  | AggReturned   \<comment> \<open>took \<^verbatim>\<open>case <-doneCh: return\<close>; the deferred \<^verbatim>\<open>wg.Done()\<close> ran\<close>

record 'c engine =
  chCS :: "'c TimeSeriesChunk list list"
  chTS :: "TimeSeries list list"
  hashToChunkseries :: "(string, 'c TimeSeriesChunk) gomap"
  hashToTimeSeries :: "(string, TimeSeries) gomap"
  wg :: int
  agg :: agg_pc
  pc :: main_pc

text \<open>
  The state after \<^verbatim>\<open>wg.Add(2)\<close> and the \<^verbatim>\<open>go func()\<close> statement: one goroutine was started.
\<close>

definition engineInit :: "'c engine" where
  "engineInit =
     \<lparr>chCS = [], chTS = [], hashToChunkseries = [], hashToTimeSeries = [],
      wg = 2, agg = Selecting, pc = FanOut\<rparr>"

text \<open>
  One step of the engine; \<open>cap\<close> is \<^verbatim>\<open>len(replicationSet.Instances)\<close>, the capacity of both
  channels.
  \<^item> \<open>push_cs\<close>, \<open>push_ts\<close>: a callback sends a non-empty batch (a send on a full channel
    blocks). Callbacks run while \<^verbatim>\<open>Do\<close> has not returned.
  \<^item> \<open>do_returns\<close>: \<^verbatim>\<open>Do\<close> returns; the main goroutine goes on to the send on \<^verbatim>\<open>doneCh\<close>.
  \<^item> \<open>recv_cs\<close>, \<open>recv_ts\<close>, \<open>recv_done\<close>: the three cases of the aggregator's \<^verbatim>\<open>select\<close>.
    A case can be taken when its communication can proceed; when several can, Go takes any
    one of them. \<open>recv_done\<close> is the rendezvous with the main goroutine's send; the
    aggregator returns and its deferred \<^verbatim>\<open>wg.Done()\<close> lowers the counter by one.
  \<^item> \<open>wait_returns\<close>: \<^verbatim>\<open>wg.Wait()\<close> returns when the counter is zero.
\<close>

inductive step :: "(LabelAdapter list \<Rightarrow> string) \<Rightarrow> nat \<Rightarrow> 'c engine \<Rightarrow> 'c engine \<Rightarrow> bool"
  for keyOf :: "LabelAdapter list \<Rightarrow> string" and cap :: nat where
  push_cs: "pc s = FanOut \<Longrightarrow> cs \<noteq> [] \<Longrightarrow> length (chCS s) < cap \<Longrightarrow>
            step keyOf cap s (s\<lparr>chCS := chCS s @ [cs]\<rparr>)"
| push_ts: "pc s = FanOut \<Longrightarrow> ts \<noteq> [] \<Longrightarrow> length (chTS s) < cap \<Longrightarrow>
            step keyOf cap s (s\<lparr>chTS := chTS s @ [ts]\<rparr>)"
| do_returns: "pc s = FanOut \<Longrightarrow> step keyOf cap s (s\<lparr>pc := SendDone\<rparr>)"
| recv_cs: "agg s = Selecting \<Longrightarrow> chCS s = cs # rest \<Longrightarrow>
            step keyOf cap s
              (s\<lparr>chCS := rest,
                 hashToChunkseries := foldl (addChunkSeries keyOf) (hashToChunkseries s) cs\<rparr>)"
| recv_ts: "agg s = Selecting \<Longrightarrow> chTS s = ts # rest \<Longrightarrow>
            step keyOf cap s
              (s\<lparr>chTS := rest,
                 hashToTimeSeries := foldl (addTimeSeries keyOf) (hashToTimeSeries s) ts\<rparr>)"
| recv_done: "agg s = Selecting \<Longrightarrow> pc s = SendDone \<Longrightarrow>
            step keyOf cap s (s\<lparr>agg := AggReturned, wg := wg s - 1, pc := WgWait\<rparr>)"
| wait_returns: "pc s = WgWait \<Longrightarrow> wg s = 0 \<Longrightarrow> step keyOf cap s (s\<lparr>pc := AfterWait\<rparr>)"

inductive reachable :: "(LabelAdapter list \<Rightarrow> string) \<Rightarrow> nat \<Rightarrow> 'c engine \<Rightarrow> bool"
  for keyOf :: "LabelAdapter list \<Rightarrow> string" and cap :: nat where
  init: "reachable keyOf cap engineInit"
| next_state: "reachable keyOf cap s \<Longrightarrow> step keyOf cap s s' \<Longrightarrow> reachable keyOf cap s'"

text \<open>
  What the aggregator has taken off its channels so far, for stating what the maps hold:
  the chunk-series and the time-series of the batches it received, in the order it received
  them. A step that shortens a channel is a receive by the aggregator (\<open>recv_cs\<close> or
  \<open>recv_ts\<close>), and the batch taken is the head of that channel before the step.
\<close>

definition takenCS :: "'c engine \<Rightarrow> 'c engine \<Rightarrow> 'c TimeSeriesChunk list" where
  "takenCS s s' = (if length (chCS s') < length (chCS s) then hd (chCS s) else [])"

definition takenTS :: "'c engine \<Rightarrow> 'c engine \<Rightarrow> TimeSeries list" where
  "takenTS s s' = (if length (chTS s') < length (chTS s) then hd (chTS s) else [])"

inductive received ::
  "(LabelAdapter list \<Rightarrow> string) \<Rightarrow> nat \<Rightarrow> 'c engine \<Rightarrow> 'c TimeSeriesChunk list \<Rightarrow> TimeSeries list
   \<Rightarrow> bool"
  for keyOf :: "LabelAdapter list \<Rightarrow> string" and cap :: nat where
  at_start: "received keyOf cap engineInit [] []"
| after_step: "received keyOf cap s css tss \<Longrightarrow> step keyOf cap s s' \<Longrightarrow>
               received keyOf cap s' (css @ takenCS s s') (tss @ takenTS s s')"

text \<open>
  The response is built by one \<^verbatim>\<open>range\<close> over each map. The order of a \<^verbatim>\<open>range\<close> over a Go
  map is not specified: \<open>buildResponse\<close> takes the order of the association list, and the
  theorem on the response is stated for every reordering of it.
\<close>

definition buildResponse :: "'c engine \<Rightarrow> 'c QueryStreamResponse" where
  "buildResponse s =
     \<lparr>Chunkseries = map snd (hashToChunkseries s), Timeseries = map snd (hashToTimeSeries s)\<rparr>"

text \<open>A chunk-series of the series \<open>up\<close>, for the examples (chunks are numbers there).\<close>

definition upChunks :: "nat list \<Rightarrow> nat TimeSeriesChunk" where
  "upChunks cs = \<lparr>TimeSeriesChunk.Labels = [(''__name__'', ''up'')], Chunks = cs\<rparr>"

text \<open>A raw time-series of the series \<open>up\<close>, for the examples.\<close>

definition upSeries :: "Sample list \<Rightarrow> TimeSeries" where
  "upSeries samples =
     \<lparr>TimeSeries.Labels = [(''__name__'', ''up'')], Samples = samples, Exemplars = []\<rparr>"

section \<open>The per-replica callbacks\<close>

text \<open>
  A Go \<^verbatim>\<open>error\<close> returned by a callback is either an error of a collaborator (of a type \<open>'e\<close>
  the code does not look into) or a \<^verbatim>\<open>validation.LimitError\<close> made from a message.
\<close>

datatype 'e goerror = Other 'e | LimitError string

text \<open>
  The two counters \<^verbatim>\<open>d.ingesterQueries\<close> and \<^verbatim>\<open>d.ingesterQueryFailures\<close>, one value per
  replica address; \<^verbatim>\<open>WithLabelValues(addr).Inc()\<close> adds one.
\<close>

record metrics =
  ingesterQueries :: "string \<Rightarrow> nat"
  ingesterQueryFailures :: "string \<Rightarrow> nat"

definition incQueries :: "string \<Rightarrow> metrics \<Rightarrow> metrics" where
  "incQueries addr m = m\<lparr>ingesterQueries := (ingesterQueries m)(addr := ingesterQueries m addr + 1)\<rparr>"

definition incFailures :: "string \<Rightarrow> metrics \<Rightarrow> metrics" where
  "incFailures addr m =
     m\<lparr>ingesterQueryFailures := (ingesterQueryFailures m)(addr := ingesterQueryFailures m addr + 1)\<rparr>"

subsection \<open>The non-streaming callbacks\<close>

text \<open>
  The callbacks of \<^verbatim>\<open>queryIngesters\<close> and \<^verbatim>\<open>queryIngestersExemplars\<close>. \<open>getClient\<close> is
  \<^verbatim>\<open>d.ingesterPool.GetClientFor\<close>, \<open>query\<close> the remote call on the client (with the request
  and context of this query), \<open>fromQueryResponse\<close> is \<^verbatim>\<open>ingester_client.FromQueryResponse\<close>.
\<close>

definition queryIngestersCallback ::
  "(string \<Rightarrow> 'e + 'cl) \<Rightarrow> ('cl \<Rightarrow> 'e + 'r) \<Rightarrow> ('r \<Rightarrow> 'mx) \<Rightarrow> string \<Rightarrow> metrics
   \<Rightarrow> ('e + 'mx) \<times> metrics" where
  "queryIngestersCallback getClient query fromQueryResponse addr m =
     (case getClient addr of
        Inl err \<Rightarrow> (Inl err, m)
      | Inr client \<Rightarrow>
          (let resp = query client;
               m = incQueries addr m
           in case resp of
                Inl err \<Rightarrow> (Inl err, incFailures addr m)
              | Inr resp \<Rightarrow> (Inr (fromQueryResponse resp), m)))"

definition queryIngestersExemplarsCallback ::
  "(string \<Rightarrow> 'e + 'cl) \<Rightarrow> ('cl \<Rightarrow> 'e + 'r) \<Rightarrow> string \<Rightarrow> metrics \<Rightarrow> ('e + 'r) \<times> metrics" where
  "queryIngestersExemplarsCallback getClient queryExemplars addr m =
     (case getClient addr of
        Inl err \<Rightarrow> (Inl err, m)
      | Inr client \<Rightarrow>
          (let resp = queryExemplars client;
               m = incQueries addr m
           in case resp of
                Inl err \<Rightarrow> (Inl err, incFailures addr m)
              | Inr resp \<Rightarrow> (Inr resp, m)))"

subsection \<open>The streaming callback\<close>

text \<open>
  The query limiter and the three measures of a message are code outside the sources:
  parameters, in one record. A limiter operation takes the limiter's state \<open>'l\<close> and
  returns the error's message, if it returns an error, and the new state.
\<close>

record ('c, 'l) queryLimiter =
  AddChunks :: "int \<Rightarrow> 'l \<Rightarrow> string option \<times> 'l"
  AddSeries :: "LabelAdapter list \<Rightarrow> 'l \<Rightarrow> string option \<times> 'l"
  AddChunkBytes :: "int \<Rightarrow> 'l \<Rightarrow> string option \<times> 'l"
  AddDataBytes :: "int \<Rightarrow> 'l \<Rightarrow> string option \<times> 'l"
  ChunksCount :: "'c QueryStreamResponse \<Rightarrow> int"
  ChunksSize :: "'c QueryStreamResponse \<Rightarrow> int"
  Size :: "'c QueryStreamResponse \<Rightarrow> int"

text \<open>A loop \<^verbatim>\<open>for _, series := range ... { if limitErr := AddSeries(...) ... return }\<close>.\<close>

fun addSeriesAll ::
  "(LabelAdapter list \<Rightarrow> 'l \<Rightarrow> string option \<times> 'l) \<Rightarrow> LabelAdapter list list \<Rightarrow> 'l
   \<Rightarrow> string option \<times> 'l" where
  "addSeriesAll addSeries [] l = (None, l)"
| "addSeriesAll addSeries (labels # rest) l =
     (case addSeries labels l of
        (Some limitErr, l') \<Rightarrow> (Some limitErr, l')
      | (None, l') \<Rightarrow> addSeriesAll addSeries rest l')"

text \<open>The five checks on one received message, lines 364 to 387.\<close>

definition checkLimits ::
  "('c, 'l) queryLimiter \<Rightarrow> 'c QueryStreamResponse \<Rightarrow> 'l \<Rightarrow> string option \<times> 'l" where
  "checkLimits q resp l =
     (case AddChunks q (ChunksCount q resp) l of
        (Some chunkLimitErr, l) \<Rightarrow> (Some chunkLimitErr, l)
      | (None, l) \<Rightarrow>
     (case addSeriesAll (AddSeries q) (map TimeSeriesChunk.Labels (Chunkseries resp)) l of
        (Some limitErr, l) \<Rightarrow> (Some limitErr, l)
      | (None, l) \<Rightarrow>
     (case AddChunkBytes q (ChunksSize q resp) l of
        (Some chunkBytesLimitErr, l) \<Rightarrow> (Some chunkBytesLimitErr, l)
      | (None, l) \<Rightarrow>
     (case AddDataBytes q (Size q resp) l of
        (Some dataBytesLimitErr, l) \<Rightarrow> (Some dataBytesLimitErr, l)
      | (None, l) \<Rightarrow>
     addSeriesAll (AddSeries q) (map TimeSeries.Labels (QueryStreamResponse.Timeseries resp)) l))))"

text \<open>
  What a callback works on: the limiter shared by the callbacks of the query, the two
  channels to the aggregator (what was sent, oldest first; a send that would block is not
  modelled here, the transition system above has it) and the counters.
\<close>

record ('c, 'l) cbState =
  limiter :: 'l
  sentCS :: "'c TimeSeriesChunk list list"
  sentTS :: "TimeSeries list list"
  counters :: metrics

text \<open>
  The body of the receive loop for a message that \<^verbatim>\<open>stream.Recv()\<close> returned: the checks,
  then the two sends. On a failed check it gives the message of the limiter's error, which
  the loop returns as \<^verbatim>\<open>validation.LimitError(msg)\<close>.
\<close>

definition handleResp ::
  "('c, 'l) queryLimiter \<Rightarrow> 'c QueryStreamResponse \<Rightarrow> ('c, 'l) cbState
   \<Rightarrow> string option \<times> ('c, 'l) cbState" where
  "handleResp q resp st =
     (case checkLimits q resp (limiter st) of
        (Some msg, l) \<Rightarrow> (Some msg, st\<lparr>limiter := l\<rparr>)
      | (None, l) \<Rightarrow>
          (None,
           st\<lparr>limiter := l,
              sentCS := (if length (Chunkseries resp) > 0
                         then sentCS st @ [Chunkseries resp] else sentCS st),
              sentTS := (if length (QueryStreamResponse.Timeseries resp) > 0
                         then sentTS st @ [QueryStreamResponse.Timeseries resp] else sentTS st)\<rparr>))"

text \<open>
  A stream is the messages \<^verbatim>\<open>Recv\<close> returns, in order, and what ends them: \<open>None\<close> for
  \<^verbatim>\<open>io.EOF\<close>, or another error. \<open>isCanceled\<close> is \<^verbatim>\<open>grpcutil.IsGRPCContextCanceled\<close>.
\<close>

record ('c, 'e) stream =
  msgs :: "'c QueryStreamResponse list"
  final :: "'e option"

fun recvLoop ::
  "('c, 'l) queryLimiter \<Rightarrow> ('e \<Rightarrow> bool) \<Rightarrow> string \<Rightarrow> 'c QueryStreamResponse list \<Rightarrow> 'e option
   \<Rightarrow> ('c, 'l) cbState \<Rightarrow> ('e goerror + 'c QueryStreamResponse) \<times> ('c, 'l) cbState" where
  "recvLoop q isCanceled addr [] fin st =
     (case fin of
        None \<Rightarrow> (Inr \<lparr>Chunkseries = [], QueryStreamResponse.Timeseries = []\<rparr>, st)
      | Some err \<Rightarrow>
          (Inl (Other err),
           if \<not> isCanceled err then st\<lparr>counters := incFailures addr (counters st)\<rparr> else st))"
| "recvLoop q isCanceled addr (resp # rest) fin st =
     (case handleResp q resp st of
        (Some msg, st') \<Rightarrow> (Inl (LimitError msg), st')
      | (None, st') \<Rightarrow> recvLoop q isCanceled addr rest fin st')"

definition queryStreamCallback ::
  "('c, 'l) queryLimiter \<Rightarrow> ('e \<Rightarrow> bool) \<Rightarrow> (string \<Rightarrow> 'e + 'cl) \<Rightarrow> ('cl \<Rightarrow> 'e + ('c, 'e) stream)
   \<Rightarrow> string \<Rightarrow> ('c, 'l) cbState \<Rightarrow> ('e goerror + 'c QueryStreamResponse) \<times> ('c, 'l) cbState" where
  "queryStreamCallback q isCanceled getClient queryStream addr st =
     (case getClient addr of
        Inl err \<Rightarrow> (Inl (Other err), st)
      | Inr client \<Rightarrow>
          (let st = st\<lparr>counters := incQueries addr (counters st)\<rparr>
           in case queryStream client of
                Inl err \<Rightarrow> (Inl (Other err), st\<lparr>counters := incFailures addr (counters st)\<rparr>)
              | Inr stream \<Rightarrow> recvLoop q isCanceled addr (msgs stream) (final stream) st))"

subsection \<open>The order of the checks as the specification words it\<close>

text \<open>
  The specification's list of checks for one message, in its order 1 to 5, each a limiter
  operation applied to its argument; and the run of such a list that stops at the first
  check that returns an error.
\<close>

definition specCheckOrder ::
  "('c, 'l) queryLimiter \<Rightarrow> 'c QueryStreamResponse \<Rightarrow> ('l \<Rightarrow> string option \<times> 'l) list" where
  "specCheckOrder q resp =
     [AddChunks q (ChunksCount q resp)]
     @ map (\<lambda>series. AddSeries q (TimeSeriesChunk.Labels series)) (Chunkseries resp)
     @ [AddChunkBytes q (ChunksSize q resp)]
     @ [AddDataBytes q (Size q resp)]
     @ map (\<lambda>series. AddSeries q (TimeSeries.Labels series)) (QueryStreamResponse.Timeseries resp)"

fun firstViolation :: "('l \<Rightarrow> string option \<times> 'l) list \<Rightarrow> 'l \<Rightarrow> string option \<times> 'l" where
  "firstViolation [] l = (None, l)"
| "firstViolation (check # checks) l =
     (case check l of
        (Some msg, l') \<Rightarrow> (Some msg, l')
      | (None, l') \<Rightarrow> firstViolation checks l')"

subsection \<open>Data for the examples\<close>

text \<open>
  A limiter whose state is the number of series added so far: it allows one series, any
  number of chunks and of message bytes, and no chunk bytes at all. And a message with two
  chunk-series.
\<close>

definition exampleLimiter :: "(nat, nat) queryLimiter" where
  "exampleLimiter =
     \<lparr>AddChunks = (\<lambda>n l. (None, l)),
      AddSeries = (\<lambda>labels l. (if 1 < l + 1 then Some ''max series'' else None, l + 1)),
      AddChunkBytes = (\<lambda>n l. (Some ''max chunk bytes'', l)),
      AddDataBytes = (\<lambda>n l. (None, l)),
      ChunksCount = (\<lambda>resp. 2),
      ChunksSize = (\<lambda>resp. 100),
      Size = (\<lambda>resp. 120)\<rparr>"

definition exampleResp :: "nat QueryStreamResponse" where
  "exampleResp =
     \<lparr>Chunkseries =
        [upChunks [1], \<lparr>TimeSeriesChunk.Labels = [(''__name__'', ''a'')], Chunks = [2]\<rparr>],
      QueryStreamResponse.Timeseries = []\<rparr>"

definition exampleCbState :: "(nat, nat) cbState" where
  "exampleCbState =
     \<lparr>limiter = 0, sentCS = [], sentTS = [],
      counters = \<lparr>ingesterQueries = (\<lambda>addr. 0), ingesterQueryFailures = (\<lambda>addr. 0)\<rparr>\<rparr>"

text \<open>
  A second limiter, whose checks a message can pass: its state is the number of series
  added so far, of which it allows two, and it allows fifty chunk bytes in one message;
  every chunk counts one and weighs forty bytes. And a message with one chunk-series of one
  chunk, which passes every check on a fresh limiter.
\<close>

definition countingLimiter :: "(nat, nat) queryLimiter" where
  "countingLimiter =
     \<lparr>AddChunks = (\<lambda>n l. (None, l)),
      AddSeries = (\<lambda>labels l. (if 2 < l + 1 then Some ''max series'' else None, l + 1)),
      AddChunkBytes = (\<lambda>n l. (if 50 < n then Some ''max chunk bytes'' else None, l)),
      AddDataBytes = (\<lambda>n l. (None, l)),
      ChunksCount = (\<lambda>resp. int (length (concat (map Chunks (Chunkseries resp))))),
      ChunksSize = (\<lambda>resp. 40 * int (length (concat (map Chunks (Chunkseries resp))))),
      Size = (\<lambda>resp. 60 * int (length (concat (map Chunks (Chunkseries resp)))))\<rparr>"

definition smallResp :: "nat QueryStreamResponse" where
  "smallResp = \<lparr>Chunkseries = [upChunks [0]], QueryStreamResponse.Timeseries = []\<rparr>"

section \<open>The replica selector\<close>

text \<open>
  The fields of \<^verbatim>\<open>d.cfg\<close> that \<^verbatim>\<open>GetIngestersForQuery\<close> reads. A \<^verbatim>\<open>time.Duration\<close> is a signed
  count of nanoseconds; the code only compares it with zero and hands it on.
\<close>

record Config =
  ShardingStrategy :: string
  ShuffleShardingLookbackPeriod :: int
  ShardByAllLabels :: bool

datatype MatchType = MatchEqual | MatchNotEqual | MatchRegexp | MatchNotRegexp

text \<open>\<^verbatim>\<open>labels.Matcher\<close>, as far as the selector reads it.\<close>

record Matcher =
  Type :: MatchType
  Name :: string
  Value :: string

text \<open>
  What the selector calls and does not define, in one record: the tenant resolver
  \<^verbatim>\<open>tenant.TenantID\<close> on a context \<open>'ctx\<close>, the constant \<^verbatim>\<open>util.ShardingStrategyShuffle\<close>, the
  limit \<^verbatim>\<open>d.limits.IngestionTenantShardSize\<close>, the three operations of the ring \<open>'ring\<close> (the two
  that return a replication set \<open>'rs\<close> are called with \<^verbatim>\<open>ring.Read\<close>), \<^verbatim>\<open>shardByMetricName\<close>,
  \<^verbatim>\<open>extract.MetricNameMatcherFromMatchers\<close> (\<open>Some m\<close> when it returns the matcher \<open>m\<close> and
  \<^verbatim>\<open>ok = true\<close>) and the reading of the clock \<^verbatim>\<open>time.Now()\<close>.
\<close>

record ('ctx, 'e, 'ring, 'rs) selectorEnv =
  TenantID :: "'ctx \<Rightarrow> 'e + string"
  ShardingStrategyShuffle :: string
  IngestionTenantShardSize :: "string \<Rightarrow> int"
  ShuffleShardWithLookback :: "'ring \<Rightarrow> string \<Rightarrow> int \<Rightarrow> int \<Rightarrow> int \<Rightarrow> 'ring"
  GetReplicationSetForOperation :: "'ring \<Rightarrow> 'e + 'rs"
  Get :: "'ring \<Rightarrow> 32 word \<Rightarrow> 'e + 'rs"
  shardByMetricName :: "string \<Rightarrow> string \<Rightarrow> 32 word"
  MetricNameMatcherFromMatchers :: "Matcher list \<Rightarrow> Matcher option"
  Now :: int

text \<open>
  \<^verbatim>\<open>GetIngestersForQuery\<close>. Each of the two guarded blocks either returns (\<open>Some\<close> of what it
  returns) or falls through (\<open>None\<close>) to the code after it.
\<close>

definition GetIngestersForQuery ::
  "('ctx, 'e, 'ring, 'rs) selectorEnv \<Rightarrow> Config \<Rightarrow> 'ring \<Rightarrow> 'ctx \<Rightarrow> Matcher list \<Rightarrow> 'e + 'rs" where
  "GetIngestersForQuery env cfg ingestersRing ctx matchers =
     (case TenantID env ctx of
        Inl err \<Rightarrow> Inl err
      | Inr userID \<Rightarrow>
          (case (if ShardingStrategy cfg = ShardingStrategyShuffle env
                 then (let shardSize = IngestionTenantShardSize env userID;
                           lookbackPeriod = ShuffleShardingLookbackPeriod cfg
                       in if shardSize > 0 \<and> lookbackPeriod > 0
                          then Some (GetReplicationSetForOperation env
                                 (ShuffleShardWithLookback env ingestersRing userID shardSize
                                    lookbackPeriod (Now env)))
                          else None)
                 else None) of
             Some returned \<Rightarrow> returned
           | None \<Rightarrow>
               (case (if \<not> ShardByAllLabels cfg \<and> length matchers > 0
                      then (case MetricNameMatcherFromMatchers env matchers of
                              Some metricNameMatcher \<Rightarrow>
                                if Matcher.Type metricNameMatcher = MatchEqual
                                then Some (Get env ingestersRing
                                       (shardByMetricName env userID (Matcher.Value metricNameMatcher)))
                                else None
                            | None \<Rightarrow> None)
                      else None) of
                  Some returned \<Rightarrow> returned
                | None \<Rightarrow> GetReplicationSetForOperation env ingestersRing)))"

text \<open>A ring of replica names, a context holding the tenant, and their operations, for the examples.\<close>

definition exampleEnv :: "(string option, string, string list, string list) selectorEnv" where
  "exampleEnv =
     \<lparr>TenantID = (\<lambda>ctx. case ctx of None \<Rightarrow> Inl ''no org id'' | Some userID \<Rightarrow> Inr userID),
      ShardingStrategyShuffle = ''shuffle-sharding'',
      IngestionTenantShardSize = (\<lambda>userID. 2),
      ShuffleShardWithLookback = (\<lambda>ring userID shardSize lookbackPeriod now. take (nat shardSize) ring),
      GetReplicationSetForOperation = (\<lambda>ring. Inr ring),
      Get = (\<lambda>ring key. Inr (take 1 (drop (unat key mod length ring) ring))),
      shardByMetricName = (\<lambda>userID name. of_nat (length name)),
      MetricNameMatcherFromMatchers = (\<lambda>matchers. find (\<lambda>m. Matcher.Name m = ''__name__'') matchers),
      Now = 0\<rparr>"

section \<open>The non-streaming query merge engine\<close>

text \<open>
  \<^verbatim>\<open>model.Metric\<close> is a Go map from label names to label values, \<^verbatim>\<open>model.SamplePair\<close> a
  timestamp with a value, \<^verbatim>\<open>model.SampleStream\<close> a metric with its values.
\<close>

type_synonym Metric = "string \<rightharpoonup> string"

record SamplePair =
  Timestamp :: int
  Value :: float64

record SampleStream =
  Metric :: Metric
  Values :: "SamplePair list"

text \<open>
  The body of the inner loop of \<^verbatim>\<open>queryIngesters\<close>. \<open>fingerprint\<close> is
  \<^verbatim>\<open>model.Metric.Fingerprint\<close>, a 64-bit hash of the label set, and \<open>mergeSampleSets\<close> is
  \<^verbatim>\<open>util.MergeSampleSets\<close>; neither is defined in the sources. The map holds pointers to
  sample streams, so the assignment to \<^verbatim>\<open>mss.Values\<close> changes the stream the map holds.
\<close>

definition addSampleStream ::
  "(Metric \<Rightarrow> 64 word) \<Rightarrow> (SamplePair list \<Rightarrow> SamplePair list \<Rightarrow> SamplePair list)
   \<Rightarrow> (64 word, SampleStream) gomap \<Rightarrow> SampleStream \<Rightarrow> (64 word, SampleStream) gomap" where
  "addSampleStream fingerprint mergeSampleSets fpToSampleStream ss =
     (let fp = fingerprint (Metric ss);
          mss = (case map_of fpToSampleStream fp of
                   None \<Rightarrow> \<lparr>Metric = Metric ss, Values = []\<rparr>
                 | Some mss \<Rightarrow> mss)
      in AList.update fp (mss\<lparr>Values := mergeSampleSets (Values mss) (Values ss)\<rparr>)
           fpToSampleStream)"

text \<open>
  The merge of \<^verbatim>\<open>queryIngesters\<close> on the results the fan-out returned: the two nested loops,
  then the matrix of the map's streams (in the order of the association list; the source's
  order is that of a \<^verbatim>\<open>range\<close> over the map).
\<close>

definition mergeMatrices ::
  "(Metric \<Rightarrow> 64 word) \<Rightarrow> (SamplePair list \<Rightarrow> SamplePair list \<Rightarrow> SamplePair list)
   \<Rightarrow> SampleStream list list \<Rightarrow> SampleStream list" where
  "mergeMatrices fingerprint mergeSampleSets results =
     map snd
       (foldl (\<lambda>fpToSampleStream result.
                 foldl (addSampleStream fingerprint mergeSampleSets) fpToSampleStream result)
          [] results)"

text \<open>
  A toy fingerprint for the examples, the length of the metric name, and two replicas'
  results: the series \<open>up\<close> from both, the series \<open>node\<close> from the first.
\<close>

definition exampleFingerprint :: "Metric \<Rightarrow> 64 word" where
  "exampleFingerprint m = (case m ''__name__'' of None \<Rightarrow> 0 | Some name \<Rightarrow> of_nat (length name))"

definition exampleResults :: "SampleStream list list" where
  "exampleResults =
     [[\<lparr>Metric = [''__name__'' \<mapsto> ''up''], Values = [\<lparr>Timestamp = 0, Value = 1\<rparr>]\<rparr>,
       \<lparr>Metric = [''__name__'' \<mapsto> ''node''], Values = [\<lparr>Timestamp = 0, Value = 7\<rparr>]\<rparr>],
      [\<lparr>Metric = [''__name__'' \<mapsto> ''up''], Values = [\<lparr>Timestamp = 60000, Value = 2\<rparr>]\<rparr>]]"

section \<open>Lemmas\<close>

subsection \<open>The merge by timestamp on lists\<close>

lemma mergeTs_Nil2: "mergeTs ts xs [] = xs"
  by (cases xs) simp_all

lemma set_ts_mergeTs: "ts ` set (mergeTs ts xs ys) = ts ` set xs \<union> ts ` set ys"
  by (induction ts xs ys rule: mergeTs.induct) auto

lemma set_mergeTs_subset: "set (mergeTs ts xs ys) \<subseteq> set xs \<union> set ys"
  by (induction ts xs ys rule: mergeTs.induct) auto

lemma set_mergeTs_left: "set xs \<subseteq> set (mergeTs ts xs ys)"
  by (induction ts xs ys rule: mergeTs.induct) auto

lemma mergeTs_ts_mem:
  "s \<in> set (mergeTs ts us vs) \<Longrightarrow> ts s \<in> ts ` set us \<union> ts ` set vs"
  using set_ts_mergeTs [of ts us vs] by blast

lemma sorted_mergeTs:
  "sorted_wrt (<) (map ts xs) \<Longrightarrow> sorted_wrt (<) (map ts ys) \<Longrightarrow>
   sorted_wrt (<) (map ts (mergeTs ts xs ys))"
proof (induction ts xs ys rule: mergeTs.induct)
  case (1 ts ys)
  then show ?case by simp
next
  case (2 ts x xs)
  then show ?case by simp
next
  case (3 ts x xs y ys)
  have sx: "\<forall>u\<in>set xs. ts x < ts u" and sy: "\<forall>v\<in>set ys. ts y < ts v"
    and sxs: "sorted_wrt (<) (map ts xs)" and sys: "sorted_wrt (<) (map ts ys)"
    using "3.prems" by auto
  show ?case
  proof (cases "ts x < ts y")
    case True
    have ih: "sorted_wrt (<) (map ts (mergeTs ts xs (y # ys)))"
      using "3.IH"(1) [OF True sxs "3.prems"(2)] .
    have above: "\<forall>s\<in>set (mergeTs ts xs (y # ys)). ts x < ts s"
    proof
      fix s assume "s \<in> set (mergeTs ts xs (y # ys))"
      then have "ts s \<in> ts ` set xs \<union> ts ` set (y # ys)"
        by (rule mergeTs_ts_mem)
      then show "ts x < ts s" using sx sy True by fastforce
    qed
    show ?thesis using True ih above by simp
  next
    case False
    show ?thesis
    proof (cases "ts y < ts x")
      case True
      have ih: "sorted_wrt (<) (map ts (mergeTs ts (x # xs) ys))"
        using "3.IH"(2) [OF False _ "3.prems"(1) sys] True by simp
      have above: "\<forall>s\<in>set (mergeTs ts (x # xs) ys). ts y < ts s"
      proof
        fix s assume "s \<in> set (mergeTs ts (x # xs) ys)"
        then have "ts s \<in> ts ` set (x # xs) \<union> ts ` set ys"
          by (rule mergeTs_ts_mem)
        then show "ts y < ts s" using sx sy True by fastforce
      qed
      show ?thesis using False True ih above by simp
    next
      case F2: False
      then have eq: "ts x = ts y" using False by simp
      have ih: "sorted_wrt (<) (map ts (mergeTs ts xs ys))"
        using "3.IH"(3) [OF False F2 sxs sys] .
      have above: "\<forall>s\<in>set (mergeTs ts xs ys). ts x < ts s"
      proof
        fix s assume "s \<in> set (mergeTs ts xs ys)"
        then have "ts s \<in> ts ` set xs \<union> ts ` set ys"
          by (rule mergeTs_ts_mem)
        then show "ts x < ts s" using sx sy eq by fastforce
      qed
      show ?thesis using False F2 ih above by simp
    qed
  qed
qed

lemma mergeTs_same: "mergeTs ts xs xs = xs"
  by (induction xs) simp_all

lemma filter_mergeTs_left:
  "sorted_wrt (<) (map ts xs) \<Longrightarrow> sorted_wrt (<) (map ts ys) \<Longrightarrow>
   filter (\<lambda>s. ts s \<in> ts ` set xs) (mergeTs ts xs ys) = xs"
proof (induction ts xs ys rule: mergeTs.induct)
  case (1 ts ys)
  then show ?case by simp
next
  case (2 ts x xs)
  then show ?case by (simp add: filter_id_conv)
next
  case (3 ts x xs y ys)
  have sx: "\<forall>u\<in>set xs. ts x < ts u" and sy: "\<forall>v\<in>set ys. ts y < ts v"
    and sxs: "sorted_wrt (<) (map ts xs)" and sys: "sorted_wrt (<) (map ts ys)"
    using "3.prems" by auto
  show ?case
  proof (cases "ts x < ts y")
    case True
    have fresh: "\<forall>s\<in>set (mergeTs ts xs (y # ys)). ts s \<noteq> ts x"
    proof
      fix s assume "s \<in> set (mergeTs ts xs (y # ys))"
      then have "ts s \<in> ts ` set xs \<union> ts ` set (y # ys)"
        using set_ts_mergeTs [of ts xs "y # ys"] by blast
      then show "ts s \<noteq> ts x" using sx sy True by auto
    qed
    have "filter (\<lambda>s. ts s \<in> ts ` set (x # xs)) (mergeTs ts xs (y # ys))
          = filter (\<lambda>s. ts s \<in> ts ` set xs) (mergeTs ts xs (y # ys))"
      using fresh by (intro filter_cong) auto
    also have "\<dots> = xs"
      using "3.IH"(1) [OF True sxs "3.prems"(2)] .
    finally show ?thesis using True by simp
  next
    case False
    show ?thesis
    proof (cases "ts y < ts x")
      case True
      have notin: "ts y \<notin> ts ` set (x # xs)"
        using sx True by auto
      have "filter (\<lambda>s. ts s \<in> ts ` set (x # xs)) (mergeTs ts (x # xs) ys) = x # xs"
        using "3.IH"(2) [OF False _ "3.prems"(1) sys] True by simp
      then show ?thesis using False True notin by simp
    next
      case F2: False
      then have eq: "ts x = ts y" using False by simp
      have fresh: "\<forall>s\<in>set (mergeTs ts xs ys). ts s \<noteq> ts x"
      proof
        fix s assume "s \<in> set (mergeTs ts xs ys)"
        then have "ts s \<in> ts ` set xs \<union> ts ` set ys"
          using set_ts_mergeTs [of ts xs ys] by blast
        then show "ts s \<noteq> ts x" using sx sy eq by auto
      qed
      have "filter (\<lambda>s. ts s \<in> ts ` set (x # xs)) (mergeTs ts xs ys)
            = filter (\<lambda>s. ts s \<in> ts ` set xs) (mergeTs ts xs ys)"
        using fresh by (intro filter_cong) auto
      also have "\<dots> = xs"
        using "3.IH"(3) [OF False F2 sxs sys] .
      finally show ?thesis using False F2 by simp
    qed
  qed
qed

lemma set_mergeTs_strict:
  "sorted_wrt (<) (map ts xs) \<Longrightarrow> sorted_wrt (<) (map ts ys) \<Longrightarrow>
   set (mergeTs ts xs ys) = set xs \<union> set (filter (\<lambda>y. ts y \<notin> ts ` set xs) ys)"
proof (induction ts xs ys rule: mergeTs.induct)
  case (1 ts ys)
  then show ?case by simp
next
  case (2 ts x xs)
  then show ?case by simp
next
  case (3 ts x xs y ys)
  have sx: "\<forall>u\<in>set xs. ts x < ts u" and sy: "\<forall>v\<in>set ys. ts y < ts v"
    and sxs: "sorted_wrt (<) (map ts xs)" and sys: "sorted_wrt (<) (map ts ys)"
    using "3.prems" by auto
  show ?case
  proof (cases "ts x < ts y")
    case True
    have ih: "set (mergeTs ts xs (y # ys)) = set xs \<union> set (filter (\<lambda>v. ts v \<notin> ts ` set xs) (y # ys))"
      using "3.IH"(1) [OF True sxs "3.prems"(2)] .
    have "filter (\<lambda>v. ts v \<notin> ts ` set (x # xs)) (y # ys) = filter (\<lambda>v. ts v \<notin> ts ` set xs) (y # ys)"
      using sy True by (intro filter_cong) auto
    then show ?thesis using True ih by simp
  next
    case False
    show ?thesis
    proof (cases "ts y < ts x")
      case True
      have ih: "set (mergeTs ts (x # xs) ys) = set (x # xs) \<union> set (filter (\<lambda>v. ts v \<notin> ts ` set (x # xs)) ys)"
        using "3.IH"(2) [OF False _ "3.prems"(1) sys] True by simp
      have "ts y \<notin> ts ` set (x # xs)" using sx True by auto
      then show ?thesis using False True ih by simp
    next
      case F2: False
      then have eq: "ts x = ts y" using False by simp
      have ih: "set (mergeTs ts xs ys) = set xs \<union> set (filter (\<lambda>v. ts v \<notin> ts ` set xs) ys)"
        using "3.IH"(3) [OF False F2 sxs sys] .
      have "filter (\<lambda>v. ts v \<notin> ts ` set (x # xs)) ys = filter (\<lambda>v. ts v \<notin> ts ` set xs) ys"
        using sy eq by (intro filter_cong) auto
      then show ?thesis using False F2 ih eq by simp
    qed
  qed
qed

subsection \<open>The two merge loops are the list merge\<close>

lemma mergeSamplesLoop_mergeTs:
  "(case mergeSamplesLoop a b i j result of (i', j', r) \<Rightarrow> (r @ drop i' a) @ drop j' b)
   = result @ mergeTs Sample.TimestampMs (drop i a) (drop j b)"
proof (induction a b i j result rule: mergeSamplesLoop.induct)
  case (1 a b i j result)
  show ?case
  proof (cases "i < length a \<and> j < length b")
    case True
    then have da: "drop i a = a ! i # drop (Suc i) a" and db: "drop j b = b ! j # drop (Suc j) b"
      by (simp_all add: Cons_nth_drop_Suc)
    show ?thesis
      using True "1.IH" da db
      by (subst mergeSamplesLoop.simps) auto
  next
    case False
    then have "drop i a = [] \<or> drop j b = []" by auto
    then show ?thesis
      using False
      by (subst mergeSamplesLoop.simps) (auto simp: mergeTs_Nil2)
  qed
qed

lemma sameSamplesFrom_ts:
  "sameSamplesFrom a b i \<Longrightarrow> length a = length b \<Longrightarrow>
   map Sample.TimestampMs (drop i a) = map Sample.TimestampMs (drop i b)"
proof (induction a b i rule: sameSamplesFrom.induct)
  case (1 a b i)
  show ?case
  proof (cases "i < length a")
    case True
    then have da: "drop i a = a ! i # drop (Suc i) a" and db: "drop i b = b ! i # drop (Suc i) b"
      using "1.prems"(2) by (simp_all add: Cons_nth_drop_Suc)
    from "1.prems"(1) True have eq: "sample_eq (a ! i) (b ! i)" and rest: "sameSamplesFrom a b (Suc i)"
      by (subst (asm) sameSamplesFrom.simps, simp split: if_splits)+
    show ?thesis
      using "1.IH" [OF True _ rest "1.prems"(2)] eq da db
      by (simp add: sample_eq_def)
  next
    case False
    then show ?thesis using "1.prems"(2) by simp
  qed
qed

lemma sameSamples_ts:
  "sameSamples a b \<Longrightarrow> map Sample.TimestampMs a = map Sample.TimestampMs b"
  using sameSamplesFrom_ts [of a b 0] by (auto simp: sameSamples_def split: if_splits)

lemma mergeSamples_cases:
  "mergeSamples a b = mergeTs Sample.TimestampMs a b \<or>
   (mergeSamples a b = a \<and> map Sample.TimestampMs a = map Sample.TimestampMs b)"
  using mergeSamplesLoop_mergeTs [of a b 0 0 "[]"] sameSamples_ts [of a b]
  by (auto simp: mergeSamples_def)

lemma mergeSamples_Nil: "mergeSamples [] b = b"
proof (cases b)
  case Nil
  then show ?thesis
    by (simp add: mergeSamples_def sameSamples_def sameSamplesFrom.simps)
next
  case (Cons x xs)
  then show ?thesis
    by (simp add: mergeSamples_def sameSamples_def mergeSamplesLoop.simps)
qed

text \<open>A run of the merge: the shared timestamp 60000 keeps the left sample.\<close>

lemma mergeSamples_example:
  "mergeSamples
     [\<lparr>Sample.Value = 1, TimestampMs = 0\<rparr>, \<lparr>Sample.Value = 2, TimestampMs = 60000\<rparr>]
     [\<lparr>Sample.Value = 9, TimestampMs = 60000\<rparr>, \<lparr>Sample.Value = 3, TimestampMs = 70000\<rparr>]
   = [\<lparr>Sample.Value = 1, TimestampMs = 0\<rparr>, \<lparr>Sample.Value = 2, TimestampMs = 60000\<rparr>,
      \<lparr>Sample.Value = 3, TimestampMs = 70000\<rparr>]"
  by (simp add: mergeSamples_def sameSamples_def sameSamplesFrom.simps mergeSamplesLoop.simps
        sample_eq_def float64_eq_def isNaN_def isZero_def)

lemma mergeExemplarSetsLoop_mergeTs:
  "(case mergeExemplarSetsLoop a b i j result of (i', j', r) \<Rightarrow> (r @ drop i' a) @ drop j' b)
   = result @ mergeTs Exemplar.TimestampMs (drop i a) (drop j b)"
proof (induction a b i j result rule: mergeExemplarSetsLoop.induct)
  case (1 a b i j result)
  show ?case
  proof (cases "i < length a \<and> j < length b")
    case True
    then have da: "drop i a = a ! i # drop (Suc i) a" and db: "drop j b = b ! j # drop (Suc j) b"
      by (simp_all add: Cons_nth_drop_Suc)
    show ?thesis
      using True "1.IH" da db
      by (subst mergeExemplarSetsLoop.simps) auto
  next
    case False
    then have "drop i a = [] \<or> drop j b = []" by auto
    then show ?thesis
      using False
      by (subst mergeExemplarSetsLoop.simps) (auto simp: mergeTs_Nil2)
  qed
qed

lemma mergeExemplarSets_mergeTs:
  "mergeExemplarSets a b = mergeTs Exemplar.TimestampMs a b"
  using mergeExemplarSetsLoop_mergeTs [of a b 0 0 "[]"] by (simp add: mergeExemplarSets_def)

subsection \<open>Association lists whose values carry their key\<close>

lemma update_new_key:
  "k \<notin> fst ` set al \<Longrightarrow> AList.update k v al = al @ [(k, v)]"
  by (induction al) auto

lemma update_same_image:
  "map_of al k = Some e \<Longrightarrow> g v = g e \<Longrightarrow>
   map (\<lambda>p. g (snd p)) (AList.update k v al) = map (\<lambda>p. g (snd p)) al"
  by (induction al) (auto split: if_splits)

lemma update_keyed:
  "map (\<lambda>p. g (snd p)) al = map fst al \<Longrightarrow> g v = k \<Longrightarrow>
   map (\<lambda>p. g (snd p)) (AList.update k v al) = map fst (AList.update k v al)"
  by (induction al) auto

lemma keyed_lookup:
  assumes "distinct (map fst m)"
    and "map (\<lambda>p. g (snd p)) m = map fst m"
    and "k \<in> set (map fst m)"
  shows "g (case map_of m k of None \<Rightarrow> z | Some v \<Rightarrow> v) = k"
proof -
  from assms(3) obtain v where kv: "(k, v) \<in> set m" by auto
  then have look: "map_of m k = Some v" using assms(1) by simp
  from assms(2) have "\<forall>p\<in>set m. g (snd p) = fst p" by simp
  then have "g v = k" using kv by fastforce
  then show ?thesis using look by simp
qed

lemma keyed_map_of:
  "map (\<lambda>p. g (snd p)) al = map fst al \<Longrightarrow> map_of al k = Some v \<Longrightarrow> g v = k"
proof -
  assume eq: "map (\<lambda>p. g (snd p)) al = map fst al" and look: "map_of al k = Some v"
  from look have "(k, v) \<in> set al" by (rule map_of_SomeD)
  moreover from eq have "\<forall>p\<in>set al. g (snd p) = fst p" by simp
  ultimately show "g v = k" by fastforce
qed

lemma foldl_foldl_concat:
  "foldl (\<lambda>st r. foldl f st (g r)) st rs = foldl f st (concat (map g rs))"
  by (induction rs arbitrary: st) simp_all

lemma distinct_keys_of_enumeration:
  assumes "map (\<lambda>p. g (snd p)) m = map fst m" and "distinct (map fst m)"
    and "mset out = mset (map snd m)"
  shows "distinct (map g out)"
proof -
  have "mset (map g out) = mset (map g (map snd m))"
    using assms(3) by (metis mset_map)
  also have "map g (map snd m) = map fst m"
    using assms(1) by (simp add: comp_def)
  finally have "mset (map g out) = mset (map fst m)" .
  then show ?thesis
    using assms(2) by (metis mset_eq_imp_distinct_iff)
qed

subsection \<open>The exemplar response reconciler\<close>

lemma addExemplarSeries_inv:
  assumes "map fst m = keys" and "distinct keys"
    and "map (\<lambda>p. lblsKey (TimeSeries.Labels (snd p))) m = keys"
    and "addExemplarSeries lblsKey (keys, m) ts = (keys', m')"
  shows "map fst m' = keys' \<and> distinct keys' \<and>
         map (\<lambda>p. lblsKey (TimeSeries.Labels (snd p))) m' = keys' \<and>
         set keys' = insert (lblsKey (TimeSeries.Labels ts)) (set keys)"
proof (cases "map_of m (lblsKey (TimeSeries.Labels ts))")
  case None
  then have fresh: "lblsKey (TimeSeries.Labels ts) \<notin> fst ` set m"
    by (simp add: map_of_eq_None_iff)
  then have upd: "AList.update (lblsKey (TimeSeries.Labels ts)) ts m = m @ [(lblsKey (TimeSeries.Labels ts), ts)]"
    by (rule update_new_key)
  have k': "keys' = keys @ [lblsKey (TimeSeries.Labels ts)]"
    and m': "m' = m @ [(lblsKey (TimeSeries.Labels ts), ts)]"
    using assms(4) None upd by (simp_all add: addExemplarSeries_def Let_def)
  have "lblsKey (TimeSeries.Labels ts) \<notin> set keys"
    using fresh assms(1) by force
  then show ?thesis
    using assms(1-3) k' m' by simp
next
  case (Some e)
  let ?k = "lblsKey (TimeSeries.Labels ts)"
  let ?e = "e\<lparr>Exemplars := mergeExemplarSets (Exemplars e) (Exemplars ts)\<rparr>"
  have k': "keys' = keys" and m': "m' = AList.update ?k ?e m"
    using assms(4) Some by (simp_all add: addExemplarSeries_def Let_def)
  have mem: "?k \<in> set (map fst m)"
    using Some by (metis map_of_eq_None_iff option.distinct(1) set_map)
  have fst': "map fst m' = map fst m"
    using mem by (simp add: m' update_keys)
  have img: "map (\<lambda>p. lblsKey (TimeSeries.Labels (snd p))) m'
             = map (\<lambda>p. lblsKey (TimeSeries.Labels (snd p))) m"
    unfolding m' by (rule update_same_image [OF Some]) simp
  have "?k \<in> set keys" using mem assms(1) by simp
  then show ?thesis
    using assms(1-3) k' fst' img by auto
qed

lemma foldl_addExemplarSeries_inv:
  assumes "map fst m = keys" and "distinct keys"
    and "map (\<lambda>p. lblsKey (TimeSeries.Labels (snd p))) m = keys"
    and "foldl (addExemplarSeries lblsKey) (keys, m) tss = (keys', m')"
  shows "map fst m' = keys' \<and> distinct keys' \<and>
         map (\<lambda>p. lblsKey (TimeSeries.Labels (snd p))) m' = keys' \<and>
         set keys' = set keys \<union> (\<lambda>ts. lblsKey (TimeSeries.Labels ts)) ` set tss"
  using assms
proof (induction tss arbitrary: keys m)
  case Nil
  then show ?case by simp
next
  case (Cons ts tss)
  obtain k1 m1 where step: "addExemplarSeries lblsKey (keys, m) ts = (k1, m1)"
    by (cases "addExemplarSeries lblsKey (keys, m) ts") auto
  have inv1: "map fst m1 = k1 \<and> distinct k1 \<and>
         map (\<lambda>p. lblsKey (TimeSeries.Labels (snd p))) m1 = k1 \<and>
         set k1 = insert (lblsKey (TimeSeries.Labels ts)) (set keys)"
    using addExemplarSeries_inv [OF Cons.prems(1-3) step] .
  have rest: "foldl (addExemplarSeries lblsKey) (k1, m1) tss = (keys', m')"
    using Cons.prems(4) step by simp
  have "map fst m' = keys' \<and> distinct keys' \<and>
         map (\<lambda>p. lblsKey (TimeSeries.Labels (snd p))) m' = keys' \<and>
         set keys' = set k1 \<union> (\<lambda>ts. lblsKey (TimeSeries.Labels ts)) ` set tss"
    using Cons.IH [of m1 k1] inv1 rest by blast
  then show ?case using inv1 by auto
qed

lemma fillResult_Some:
  "i + length ks \<le> length result \<Longrightarrow>
   fillResult m result i ks
   = Some (take i result
           @ map (\<lambda>k. case map_of m k of None \<Rightarrow> zeroTimeSeries | Some v \<Rightarrow> v) ks
           @ drop (i + length ks) result)"
proof (induction ks arbitrary: i result)
  case Nil
  then show ?case by simp
next
  case (Cons k ks)
  let ?v = "case map_of m k of None \<Rightarrow> zeroTimeSeries | Some v \<Rightarrow> v"
  have i: "i < length result" using Cons.prems by simp
  have "fillResult m (result[i := ?v]) (Suc i) ks
        = Some (take (Suc i) (result[i := ?v])
                @ map (\<lambda>k. case map_of m k of None \<Rightarrow> zeroTimeSeries | Some v \<Rightarrow> v) ks
                @ drop (Suc i + length ks) (result[i := ?v]))"
    using Cons.IH [of "Suc i" "result[i := ?v]"] Cons.prems by simp
  moreover have "take (Suc i) (result[i := ?v]) = take i result @ [?v]"
    using i by (simp add: take_Suc_conv_app_nth)
  moreover have "drop (Suc i + length ks) (result[i := ?v]) = drop (i + length (k # ks)) result"
    by simp
  ultimately show ?case using i by simp
qed

text \<open>
  A run of the reconciler: two replicas return disjoint exemplars for the series \<open>up\<close>, the
  second also the series \<open>a\<close>. The output has \<open>a\<close> before \<open>up\<close> and the two exemplars of \<open>up\<close>
  in the order of their timestamps.
\<close>

lemma mergeExemplarQueryResponses_example:
  "mergeExemplarQueryResponses exampleKey
     [\<lparr>ExemplarQueryResponse.Timeseries =
         [\<lparr>TimeSeries.Labels = [(''__name__'', ''up'')], Samples = [],
           Exemplars = [\<lparr>Exemplar.Labels = [], Value = 1, TimestampMs = 10\<rparr>]\<rparr>]\<rparr>,
      \<lparr>ExemplarQueryResponse.Timeseries =
         [\<lparr>TimeSeries.Labels = [(''__name__'', ''a'')], Samples = [], Exemplars = []\<rparr>,
          \<lparr>TimeSeries.Labels = [(''__name__'', ''up'')], Samples = [],
           Exemplars = [\<lparr>Exemplar.Labels = [], Value = 2, TimestampMs = 20\<rparr>]\<rparr>]\<rparr>]
   = Some \<lparr>ExemplarQueryResponse.Timeseries =
       [\<lparr>TimeSeries.Labels = [(''__name__'', ''a'')], Samples = [], Exemplars = []\<rparr>,
        \<lparr>TimeSeries.Labels = [(''__name__'', ''up'')], Samples = [],
         Exemplars = [\<lparr>Exemplar.Labels = [], Value = 1, TimestampMs = 10\<rparr>,
                      \<lparr>Exemplar.Labels = [], Value = 2, TimestampMs = 20\<rparr>]\<rparr>]\<rparr>"
  by (simp add: mergeExemplarQueryResponses_def addExemplarSeries_def exampleKey_def
        mergeExemplarSets_def mergeExemplarSetsLoop.simps zeroTimeSeries_def
        less_eq_char_def less_char_def Let_def insort_key.simps)

subsection \<open>The aggregator and the engine\<close>

lemma addChunkSeries_keyed:
  assumes "map (\<lambda>p. keyOf (TimeSeriesChunk.Labels (snd p))) m = map fst m"
    and "distinct (map fst m)"
  shows "map (\<lambda>p. keyOf (TimeSeriesChunk.Labels (snd p))) (addChunkSeries keyOf m series)
           = map fst (addChunkSeries keyOf m series) \<and>
         distinct (map fst (addChunkSeries keyOf m series))"
  unfolding addChunkSeries_def Let_def
  by (intro conjI update_keyed distinct_update) (use assms in simp_all)

lemma addTimeSeries_keyed:
  assumes "map (\<lambda>p. keyOf (TimeSeries.Labels (snd p))) m = map fst m"
    and "distinct (map fst m)"
  shows "map (\<lambda>p. keyOf (TimeSeries.Labels (snd p))) (addTimeSeries keyOf m series)
           = map fst (addTimeSeries keyOf m series) \<and>
         distinct (map fst (addTimeSeries keyOf m series))"
  unfolding addTimeSeries_def Let_def
  by (intro conjI update_keyed distinct_update) (use assms in simp_all)

lemma foldl_addChunkSeries_keyed:
  "map (\<lambda>p. keyOf (TimeSeriesChunk.Labels (snd p))) m = map fst m \<Longrightarrow> distinct (map fst m) \<Longrightarrow>
   map (\<lambda>p. keyOf (TimeSeriesChunk.Labels (snd p))) (foldl (addChunkSeries keyOf) m cs)
     = map fst (foldl (addChunkSeries keyOf) m cs) \<and>
   distinct (map fst (foldl (addChunkSeries keyOf) m cs))"
proof (induction cs arbitrary: m)
  case Nil
  then show ?case by simp
next
  case (Cons c cs)
  show ?case
    using Cons.IH [of "addChunkSeries keyOf m c"] addChunkSeries_keyed [OF Cons.prems, of c]
    by simp
qed

lemma foldl_addTimeSeries_keyed:
  "map (\<lambda>p. keyOf (TimeSeries.Labels (snd p))) m = map fst m \<Longrightarrow> distinct (map fst m) \<Longrightarrow>
   map (\<lambda>p. keyOf (TimeSeries.Labels (snd p))) (foldl (addTimeSeries keyOf) m ts)
     = map fst (foldl (addTimeSeries keyOf) m ts) \<and>
   distinct (map fst (foldl (addTimeSeries keyOf) m ts))"
proof (induction ts arbitrary: m)
  case Nil
  then show ?case by simp
next
  case (Cons t ts)
  show ?case
    using Cons.IH [of "addTimeSeries keyOf m t"] addTimeSeries_keyed [OF Cons.prems, of t]
    by simp
qed

lemma step_keyed:
  assumes "step keyOf cap s s'"
    and "map (\<lambda>p. keyOf (TimeSeriesChunk.Labels (snd p))) (hashToChunkseries s) = map fst (hashToChunkseries s)"
    and "distinct (map fst (hashToChunkseries s))"
    and "map (\<lambda>p. keyOf (TimeSeries.Labels (snd p))) (hashToTimeSeries s) = map fst (hashToTimeSeries s)"
    and "distinct (map fst (hashToTimeSeries s))"
  shows "map (\<lambda>p. keyOf (TimeSeriesChunk.Labels (snd p))) (hashToChunkseries s') = map fst (hashToChunkseries s') \<and>
         distinct (map fst (hashToChunkseries s')) \<and>
         map (\<lambda>p. keyOf (TimeSeries.Labels (snd p))) (hashToTimeSeries s') = map fst (hashToTimeSeries s') \<and>
         distinct (map fst (hashToTimeSeries s'))"
  using assms(1)
proof cases
  case (recv_cs cs rest)
  then show ?thesis
    using foldl_addChunkSeries_keyed [OF assms(2,3), of cs] assms(4,5) by simp
next
  case (recv_ts ts rest)
  then show ?thesis
    using foldl_addTimeSeries_keyed [OF assms(4,5), of ts] assms(2,3) by simp
qed (use assms(2-5) in simp_all)

lemma reachable_keyed:
  "reachable keyOf cap s \<Longrightarrow>
   map (\<lambda>p. keyOf (TimeSeriesChunk.Labels (snd p))) (hashToChunkseries s) = map fst (hashToChunkseries s) \<and>
   distinct (map fst (hashToChunkseries s)) \<and>
   map (\<lambda>p. keyOf (TimeSeries.Labels (snd p))) (hashToTimeSeries s) = map fst (hashToTimeSeries s) \<and>
   distinct (map fst (hashToTimeSeries s))"
proof (induction rule: reachable.induct)
  case init
  then show ?case by (simp add: engineInit_def)
next
  case (next_state s s')
  then show ?case using step_keyed [of keyOf cap s s'] by blast
qed

lemma engine_invariant:
  "reachable keyOf cap s \<Longrightarrow>
   (pc s = FanOut \<or> pc s = SendDone \<or> pc s = WgWait) \<and>
   (pc s \<noteq> WgWait \<longrightarrow> agg s = Selecting \<and> wg s = 2) \<and>
   (pc s = WgWait \<longrightarrow> agg s = AggReturned \<and> wg s = 1)"
proof (induction rule: reachable.induct)
  case init
  then show ?case by (simp add: engineInit_def)
next
  case (next_state s s')
  from next_state.hyps(2) next_state.IH show ?case
    by cases auto
qed

lemma step_eq: "step keyOf cap s t \<Longrightarrow> t = t' \<Longrightarrow> step keyOf cap s t'"
  by simp

lemma reach_sent:
  "reachable exampleKey 1
     (\<lparr>chCS = [], chTS = [], hashToChunkseries = [], hashToTimeSeries = [],
       wg = 2, agg = Selecting, pc = SendDone\<rparr> :: nat engine)"
proof -
  have "step exampleKey 1 (engineInit :: nat engine) (engineInit\<lparr>pc := SendDone\<rparr>)"
    by (rule step.do_returns) (simp add: engineInit_def)
  then have "reachable exampleKey 1 ((engineInit :: nat engine)\<lparr>pc := SendDone\<rparr>)"
    by (rule reachable.next_state [OF reachable.init])
  then show ?thesis by (simp add: engineInit_def)
qed

lemma reach_waiting:
  "reachable exampleKey 1
     (\<lparr>chCS = [], chTS = [], hashToChunkseries = [], hashToTimeSeries = [],
       wg = 1, agg = AggReturned, pc = WgWait\<rparr> :: nat engine)"
proof -
  let ?s = "\<lparr>chCS = [], chTS = [], hashToChunkseries = [], hashToTimeSeries = [],
       wg = 2, agg = Selecting, pc = SendDone\<rparr> :: nat engine"
  have "step exampleKey 1 ?s (?s\<lparr>agg := AggReturned, wg := wg ?s - 1, pc := WgWait\<rparr>)"
    by (rule step.recv_done) simp_all
  then have "reachable exampleKey 1 (?s\<lparr>agg := AggReturned, wg := wg ?s - 1, pc := WgWait\<rparr>)"
    by (rule reachable.next_state [OF reach_sent])
  then show ?thesis by simp
qed

lemma reach_pushed:
  "reachable exampleKey 1
     (\<lparr>chCS = [[upChunks [7]]], chTS = [], hashToChunkseries = [], hashToTimeSeries = [],
       wg = 2, agg = Selecting, pc = FanOut\<rparr> :: nat engine)"
proof -
  have "step exampleKey 1 (engineInit :: nat engine)
          (engineInit\<lparr>chCS := chCS (engineInit :: nat engine) @ [[upChunks [7]]]\<rparr>)"
    by (rule step.push_cs) (simp_all add: engineInit_def)
  then have "reachable exampleKey 1
          ((engineInit :: nat engine)\<lparr>chCS := chCS (engineInit :: nat engine) @ [[upChunks [7]]]\<rparr>)"
    by (rule reachable.next_state [OF reachable.init])
  then show ?thesis by (simp add: engineInit_def)
qed

lemma reach_pushed_sent:
  "reachable exampleKey 1
     (\<lparr>chCS = [[upChunks [7]]], chTS = [], hashToChunkseries = [], hashToTimeSeries = [],
       wg = 2, agg = Selecting, pc = SendDone\<rparr> :: nat engine)"
proof -
  let ?s = "\<lparr>chCS = [[upChunks [7]]], chTS = [], hashToChunkseries = [], hashToTimeSeries = [],
       wg = 2, agg = Selecting, pc = FanOut\<rparr> :: nat engine"
  have "step exampleKey 1 ?s (?s\<lparr>pc := SendDone\<rparr>)"
    by (rule step.do_returns) simp
  then have "reachable exampleKey 1 (?s\<lparr>pc := SendDone\<rparr>)"
    by (rule reachable.next_state [OF reach_pushed])
  then show ?thesis by simp
qed

text \<open>The series the aggregator has received determine its two maps.\<close>

lemma received_reachable: "received keyOf cap s css tss \<Longrightarrow> reachable keyOf cap s"
  by (induction rule: received.induct) (auto intro: reachable.intros)

lemma reachable_received: "reachable keyOf cap s \<Longrightarrow> \<exists>css tss. received keyOf cap s css tss"
  by (induction rule: reachable.induct) (blast intro: received.intros)+

lemma step_taken:
  assumes "step keyOf cap s s'"
  shows "hashToChunkseries s' = foldl (addChunkSeries keyOf) (hashToChunkseries s) (takenCS s s') \<and>
         hashToTimeSeries s' = foldl (addTimeSeries keyOf) (hashToTimeSeries s) (takenTS s s')"
  using assms by cases (simp_all add: takenCS_def takenTS_def)

lemma received_maps:
  "received keyOf cap s css tss \<Longrightarrow>
   hashToChunkseries s = foldl (addChunkSeries keyOf) [] css \<and>
   hashToTimeSeries s = foldl (addTimeSeries keyOf) [] tss"
proof (induction rule: received.induct)
  case at_start
  then show ?case by (simp add: engineInit_def)
next
  case (after_step s css tss s')
  then show ?case using step_taken [of keyOf cap s s'] by simp
qed

lemma chunk_record_eq:
  "(r :: 'c TimeSeriesChunk)\<lparr>TimeSeriesChunk.Labels := a, Chunks := b\<rparr>
   = \<lparr>TimeSeriesChunk.Labels = a, Chunks = b\<rparr>"
  by (cases r) simp

lemma map_of_addChunkSeries:
  "map_of (addChunkSeries keyOf al x) k =
     (if k = keyOf (TimeSeriesChunk.Labels x)
      then Some \<lparr>TimeSeriesChunk.Labels = TimeSeriesChunk.Labels x,
                 Chunks = Chunks (case map_of al k of None \<Rightarrow> zeroTimeSeriesChunk | Some v \<Rightarrow> v)
                          @ Chunks x\<rparr>
      else map_of al k)"
  by (simp add: addChunkSeries_def Let_def update_conv' chunk_record_eq)

lemma map_of_foldl_addChunkSeries:
  "map_of (foldl (addChunkSeries keyOf) [] css) k =
     (if filter (\<lambda>x. keyOf (TimeSeriesChunk.Labels x) = k) css = [] then None
      else Some \<lparr>TimeSeriesChunk.Labels =
                   TimeSeriesChunk.Labels (last (filter (\<lambda>x. keyOf (TimeSeriesChunk.Labels x) = k) css)),
                 Chunks = concat (map Chunks (filter (\<lambda>x. keyOf (TimeSeriesChunk.Labels x) = k) css))\<rparr>)"
proof (induction css rule: rev_induct)
  case Nil
  then show ?case by simp
next
  case (snoc x css)
  show ?case
  proof (cases "k = keyOf (TimeSeriesChunk.Labels x)")
    case True
    then show ?thesis
      using snoc by (simp add: map_of_addChunkSeries zeroTimeSeriesChunk_def)
  next
    case False
    then have "keyOf (TimeSeriesChunk.Labels x) \<noteq> k" by simp
    then show ?thesis
      using snoc False by (simp add: map_of_addChunkSeries)
  qed
qed

lemma map_of_addTimeSeries:
  "map_of (addTimeSeries keyOf al x) k =
     (if k = keyOf (TimeSeries.Labels x)
      then Some ((case map_of al k of None \<Rightarrow> zeroTimeSeries | Some v \<Rightarrow> v)
                 \<lparr>TimeSeries.Labels := TimeSeries.Labels x,
                  Samples := mergeSamples
                    (Samples (case map_of al k of None \<Rightarrow> zeroTimeSeries | Some v \<Rightarrow> v))
                    (Samples x)\<rparr>)
      else map_of al k)"
  by (simp add: addTimeSeries_def Let_def update_conv' mergeSamples_Nil)

lemma map_of_foldl_addTimeSeries:
  "map_of (foldl (addTimeSeries keyOf) [] tss) k =
     (if filter (\<lambda>x. keyOf (TimeSeries.Labels x) = k) tss = [] then None
      else Some \<lparr>TimeSeries.Labels =
                   TimeSeries.Labels (last (filter (\<lambda>x. keyOf (TimeSeries.Labels x) = k) tss)),
                 Samples = foldl mergeSamples []
                   (map Samples (filter (\<lambda>x. keyOf (TimeSeries.Labels x) = k) tss)),
                 Exemplars = []\<rparr>)"
proof (induction tss rule: rev_induct)
  case Nil
  then show ?case by simp
next
  case (snoc x tss)
  show ?case
  proof (cases "k = keyOf (TimeSeries.Labels x)")
    case True
    then show ?thesis
      using snoc by (simp add: map_of_addTimeSeries zeroTimeSeries_def mergeSamples_Nil)
  next
    case False
    then have "keyOf (TimeSeries.Labels x) \<noteq> k" by simp
    then show ?thesis
      using snoc False by (simp add: map_of_addTimeSeries)
  qed
qed

lemma entry_of_enumeration:
  assumes "distinct (map fst al)" and "mset out = mset (map snd al)" and "e \<in> set out"
  shows "\<exists>k. map_of al k = Some e"
proof -
  have "set out = set (map snd al)" using assms(2) by (rule mset_eq_setD)
  then obtain k where "(k, e) \<in> set al" using assms(3) by auto
  then have "map_of al k = Some e" using assms(1) by simp
  then show ?thesis ..
qed

lemma keys_of_enumeration:
  assumes "map (\<lambda>p. g (snd p)) al = map fst al" and "mset out = mset (map snd al)"
  shows "set (map g out) = dom (map_of al)"
proof -
  have "set out = set (map snd al)" using assms(2) by (rule mset_eq_setD)
  then have "set (map g out) = set (map (\<lambda>p. g (snd p)) al)" by (simp add: image_image)
  also have "\<dots> = set (map fst al)" using assms(1) by simp
  also have "\<dots> = dom (map_of al)" by (simp add: dom_map_of_conv_image_fst)
  finally show ?thesis .
qed

lemma last_filter_key:
  "filter (\<lambda>x. f x = k) xs \<noteq> [] \<Longrightarrow> f (last (filter (\<lambda>x. f x = k) xs)) = k"
proof -
  assume ne: "filter (\<lambda>x. f x = k) xs \<noteq> []"
  then have "last (filter (\<lambda>x. f x = k) xs) \<in> set (filter (\<lambda>x. f x = k) xs)"
    by (rule last_in_set)
  then show ?thesis by simp
qed

lemma received_step:
  "received keyOf cap s css tss \<Longrightarrow> step keyOf cap s s' \<Longrightarrow>
   css' = css @ takenCS s s' \<Longrightarrow> tss' = tss @ takenTS s s' \<Longrightarrow>
   received keyOf cap s' css' tss'"
  using received.after_step by blast

lemma example_received:
  "received exampleKey 2
     ((engineInit :: nat engine)
        \<lparr>hashToChunkseries :=
           [(''__name__=up,'', upChunks [1, 2]),
            (''__name__=a,'', \<lparr>TimeSeriesChunk.Labels = [(''__name__'', ''a'')], Chunks = [3]\<rparr>)],
         hashToTimeSeries :=
           [(''__name__=up,'',
             upSeries [\<lparr>Sample.Value = 1, TimestampMs = 0\<rparr>, \<lparr>Sample.Value = 2, TimestampMs = 60000\<rparr>,
                       \<lparr>Sample.Value = 3, TimestampMs = 70000\<rparr>])]\<rparr>)
     [upChunks [1], upChunks [2], \<lparr>TimeSeriesChunk.Labels = [(''__name__'', ''a'')], Chunks = [3]\<rparr>]
     [upSeries [\<lparr>Sample.Value = 1, TimestampMs = 0\<rparr>, \<lparr>Sample.Value = 2, TimestampMs = 60000\<rparr>],
      upSeries [\<lparr>Sample.Value = 9, TimestampMs = 60000\<rparr>, \<lparr>Sample.Value = 3, TimestampMs = 70000\<rparr>]]"
proof -
  let ?a = "\<lparr>TimeSeriesChunk.Labels = [(''__name__'', ''a'')], Chunks = [3::nat]\<rparr>"
  let ?x = "upSeries [\<lparr>Sample.Value = 1, TimestampMs = 0\<rparr>, \<lparr>Sample.Value = 2, TimestampMs = 60000\<rparr>]"
  let ?y = "upSeries [\<lparr>Sample.Value = 9, TimestampMs = 60000\<rparr>, \<lparr>Sample.Value = 3, TimestampMs = 70000\<rparr>]"
  let ?z = "upSeries [\<lparr>Sample.Value = 1, TimestampMs = 0\<rparr>, \<lparr>Sample.Value = 2, TimestampMs = 60000\<rparr>,
                      \<lparr>Sample.Value = 3, TimestampMs = 70000\<rparr>]"
  let ?s1 = "(engineInit :: nat engine)\<lparr>chCS := [[upChunks [1]]]\<rparr>"
  let ?s2 = "(engineInit :: nat engine)\<lparr>chCS := [[upChunks [1]]], chTS := [[?x]]\<rparr>"
  let ?s3 = "(engineInit :: nat engine)
               \<lparr>chTS := [[?x]], hashToChunkseries := [(''__name__=up,'', upChunks [1])]\<rparr>"
  let ?s4 = "(engineInit :: nat engine)
               \<lparr>chCS := [[upChunks [2], ?a]], chTS := [[?x]],
                hashToChunkseries := [(''__name__=up,'', upChunks [1])]\<rparr>"
  let ?s5 = "(engineInit :: nat engine)
               \<lparr>chCS := [[upChunks [2], ?a]],
                hashToChunkseries := [(''__name__=up,'', upChunks [1])],
                hashToTimeSeries := [(''__name__=up,'', ?x)]\<rparr>"
  let ?s6 = "(engineInit :: nat engine)
               \<lparr>chCS := [[upChunks [2], ?a]], chTS := [[?y]],
                hashToChunkseries := [(''__name__=up,'', upChunks [1])],
                hashToTimeSeries := [(''__name__=up,'', ?x)]\<rparr>"
  let ?s7 = "(engineInit :: nat engine)
               \<lparr>chTS := [[?y]],
                hashToChunkseries := [(''__name__=up,'', upChunks [1, 2]), (''__name__=a,'', ?a)],
                hashToTimeSeries := [(''__name__=up,'', ?x)]\<rparr>"
  let ?s8 = "(engineInit :: nat engine)
               \<lparr>hashToChunkseries := [(''__name__=up,'', upChunks [1, 2]), (''__name__=a,'', ?a)],
                hashToTimeSeries := [(''__name__=up,'', ?z)]\<rparr>"
  note ev = engineInit_def addChunkSeries_def addTimeSeries_def exampleKey_def upChunks_def
    upSeries_def zeroTimeSeriesChunk_def zeroTimeSeries_def mergeSamples_example
  have r0: "received exampleKey 2 (engineInit :: nat engine) [] []"
    by (rule received.at_start)
  have "step exampleKey 2 engineInit ?s1"
    by (rule step_eq, rule step.push_cs [of _ "[upChunks [1]]"]) (simp_all add: engineInit_def)
  then have r1: "received exampleKey 2 ?s1 [] []"
    by (rule received_step [OF r0]) (simp_all add: takenCS_def takenTS_def engineInit_def)
  have "step exampleKey 2 ?s1 ?s2"
    by (rule step_eq, rule step.push_ts [of _ "[?x]"]) (simp_all add: engineInit_def)
  then have r2: "received exampleKey 2 ?s2 [] []"
    by (rule received_step [OF r1]) (simp_all add: takenCS_def takenTS_def engineInit_def)
  have "step exampleKey 2 ?s2 ?s3"
    by (rule step_eq, rule step.recv_cs [of _ "[upChunks [1]]" "[]"]) (simp_all add: ev)
  then have r3: "received exampleKey 2 ?s3 [upChunks [1]] []"
    by (rule received_step [OF r2]) (simp_all add: takenCS_def takenTS_def engineInit_def)
  have "step exampleKey 2 ?s3 ?s4"
    by (rule step_eq, rule step.push_cs [of _ "[upChunks [2], ?a]"]) (simp_all add: engineInit_def)
  then have r4: "received exampleKey 2 ?s4 [upChunks [1]] []"
    by (rule received_step [OF r3]) (simp_all add: takenCS_def takenTS_def engineInit_def)
  have "step exampleKey 2 ?s4 ?s5"
    by (rule step_eq, rule step.recv_ts [of _ "[?x]" "[]"]) (simp_all add: ev)
  then have r5: "received exampleKey 2 ?s5 [upChunks [1]] [?x]"
    by (rule received_step [OF r4]) (simp_all add: takenCS_def takenTS_def engineInit_def)
  have "step exampleKey 2 ?s5 ?s6"
    by (rule step_eq, rule step.push_ts [of _ "[?y]"]) (simp_all add: engineInit_def)
  then have r6: "received exampleKey 2 ?s6 [upChunks [1]] [?x]"
    by (rule received_step [OF r5]) (simp_all add: takenCS_def takenTS_def engineInit_def)
  have "step exampleKey 2 ?s6 ?s7"
    by (rule step_eq, rule step.recv_cs [of _ "[upChunks [2], ?a]" "[]"]) (simp_all add: ev)
  then have r7: "received exampleKey 2 ?s7 [upChunks [1], upChunks [2], ?a] [?x]"
    by (rule received_step [OF r6]) (simp_all add: takenCS_def takenTS_def engineInit_def)
  have "step exampleKey 2 ?s7 ?s8"
    by (rule step_eq, rule step.recv_ts [of _ "[?y]" "[]"]) (simp_all add: ev)
  then show ?thesis
    by (rule received_step [OF r7]) (simp_all add: takenCS_def takenTS_def engineInit_def)
qed

subsection \<open>The limit checks and the receive loop\<close>

lemma firstViolation_append:
  "firstViolation (cs @ ds) l =
     (case firstViolation cs l of (Some msg, l') \<Rightarrow> (Some msg, l') | (None, l') \<Rightarrow> firstViolation ds l')"
  by (induction cs arbitrary: l) (auto split: prod.splits option.splits)

lemma firstViolation_addSeries:
  "firstViolation (map (\<lambda>x. addSeries (f x)) xs) l = addSeriesAll addSeries (map f xs) l"
  by (induction xs arbitrary: l) (auto split: prod.splits option.splits)

lemma checkLimits_spec:
  "checkLimits q resp l = firstViolation (specCheckOrder q resp) l"
  by (simp add: checkLimits_def specCheckOrder_def firstViolation_append firstViolation_addSeries
        split: prod.splits option.splits)

lemma handleResp_error:
  "fst (handleResp q resp st) = Some msg \<Longrightarrow>
   sentCS (snd (handleResp q resp st)) = sentCS st \<and>
   sentTS (snd (handleResp q resp st)) = sentTS st \<and>
   counters (snd (handleResp q resp st)) = counters st"
  by (auto simp: handleResp_def split: prod.splits option.splits)

lemma handleResp_ok:
  "handleResp q resp st = (None, st') \<Longrightarrow> counters st' = counters st"
  by (auto simp: handleResp_def split: prod.splits option.splits)

lemma recvLoop_failures:
  "ingesterQueryFailures (counters (snd (recvLoop q isCanceled addr rs fin st))) addr
   = ingesterQueryFailures (counters st) addr
     + (if fst (recvLoop q isCanceled addr rs fin st) \<in> Inl ` Other ` {err. \<not> isCanceled err} then 1 else 0)"
proof (induction rs arbitrary: st)
  case Nil
  then show ?case by (auto simp: incFailures_def split: option.splits)
next
  case (Cons resp rest)
  show ?case
  proof (cases "handleResp q resp st")
    case (Pair r st')
    show ?thesis
    proof (cases r)
      case None
      have "counters st' = counters st"
        using Pair None handleResp_ok by blast
      then show ?thesis using Pair None Cons.IH [of st'] by simp
    next
      case (Some e)
      then have "fst (handleResp q resp st) = Some e" using Pair by simp
      from handleResp_error [OF this] show ?thesis using Pair Some by auto
    qed
  qed
qed

lemma recvLoop_canceled:
  "fin = Some err \<Longrightarrow> isCanceled err \<Longrightarrow>
   ingesterQueryFailures (counters (snd (recvLoop q isCanceled addr rs fin st))) addr
   = ingesterQueryFailures (counters st) addr"
proof (induction rs arbitrary: st)
  case Nil
  then show ?case by simp
next
  case (Cons resp rest)
  show ?case
  proof (cases "handleResp q resp st")
    case (Pair r st')
    show ?thesis
    proof (cases r)
      case None
      have "counters st' = counters st"
        using Pair None handleResp_ok by blast
      then show ?thesis using Pair None Cons.IH [OF Cons.prems, of st'] by simp
    next
      case (Some e)
      then have "fst (handleResp q resp st) = Some e" using Pair by simp
      from handleResp_error [OF this] show ?thesis using Pair Some by auto
    qed
  qed
qed

lemma handleResp_violation:
  "firstViolation (specCheckOrder q resp) (limiter st) = (Some m, lv) \<Longrightarrow>
   handleResp q resp st = (Some m, st\<lparr>limiter := lv\<rparr>)"
  by (simp add: handleResp_def checkLimits_spec)

lemma handleResp_pass:
  "firstViolation (specCheckOrder q resp) (limiter st) = (None, lv) \<Longrightarrow>
   handleResp q resp st =
     (None,
      st\<lparr>limiter := lv,
         sentCS := (if length (Chunkseries resp) > 0
                    then sentCS st @ [Chunkseries resp] else sentCS st),
         sentTS := (if length (QueryStreamResponse.Timeseries resp) > 0
                    then sentTS st @ [QueryStreamResponse.Timeseries resp] else sentTS st)\<rparr>)"
  by (simp add: handleResp_def checkLimits_spec)

lemma recvLoop_append_passed:
  "recvLoop q isCanceled addr pre None st0 = (Inr r, st) \<Longrightarrow>
   recvLoop q isCanceled addr (pre @ rs) fin st0 = recvLoop q isCanceled addr rs fin st"
proof (induction pre arbitrary: st0)
  case Nil
  then show ?case by simp
next
  case (Cons x pre)
  obtain e s1 where h: "handleResp q x st0 = (e, s1)"
    by (cases "handleResp q x st0") auto
  show ?case
  proof (cases e)
    case None
    then show ?thesis using Cons h by simp
  next
    case (Some msg)
    then show ?thesis using Cons.prems h by simp
  qed
qed

lemma smallResp_passes:
  "firstViolation (specCheckOrder countingLimiter smallResp) (limiter exampleCbState) = (None, 1)"
  by (simp add: specCheckOrder_def countingLimiter_def smallResp_def exampleCbState_def upChunks_def)

lemma exampleResp_fails:
  "firstViolation (specCheckOrder countingLimiter exampleResp)
     (limiter (exampleCbState\<lparr>limiter := 1, sentCS := [[upChunks [0]]]\<rparr>))
   = (Some ''max series'', 3)"
  by (simp add: specCheckOrder_def countingLimiter_def exampleResp_def upChunks_def)

subsection \<open>The non-streaming merge\<close>

lemma addSampleStream_inv:
  assumes "map (\<lambda>p. fingerprint (Metric (snd p))) al = map fst al"
    and "distinct (map fst al)"
    and "Metric ` snd ` set al \<subseteq> M"
  shows "map (\<lambda>p. fingerprint (Metric (snd p))) (addSampleStream fingerprint mergeSampleSets al ss)
           = map fst (addSampleStream fingerprint mergeSampleSets al ss) \<and>
         distinct (map fst (addSampleStream fingerprint mergeSampleSets al ss)) \<and>
         fst ` set (addSampleStream fingerprint mergeSampleSets al ss)
           = insert (fingerprint (Metric ss)) (fst ` set al) \<and>
         Metric ` snd ` set (addSampleStream fingerprint mergeSampleSets al ss) \<subseteq> insert (Metric ss) M"
proof -
  let ?fp = "fingerprint (Metric ss)"
  let ?mss = "case map_of al ?fp of None \<Rightarrow> \<lparr>Metric = Metric ss, Values = []\<rparr> | Some mss \<Rightarrow> mss"
  let ?v = "?mss\<lparr>Values := mergeSampleSets (Values ?mss) (Values ss)\<rparr>"
  have unfold: "addSampleStream fingerprint mergeSampleSets al ss = AList.update ?fp ?v al"
    by (simp add: addSampleStream_def Let_def)
  have key: "fingerprint (Metric ?v) = ?fp"
  proof (cases "map_of al ?fp")
    case None
    then show ?thesis by simp
  next
    case (Some mss)
    then show ?thesis using keyed_map_of [OF assms(1) Some] by simp
  qed
  have metric: "Metric ?v \<in> insert (Metric ss) M"
  proof (cases "map_of al ?fp")
    case None
    then show ?thesis by simp
  next
    case (Some mss)
    then have "(?fp, mss) \<in> set al" by (rule map_of_SomeD)
    then have "Metric mss \<in> Metric ` snd ` set al" by force
    then show ?thesis using Some assms(3) by auto
  qed
  have "set (AList.update ?fp ?v al) \<subseteq> insert (?fp, ?v) (set al)"
    by (induction al) auto
  then have sub: "Metric ` snd ` set (AList.update ?fp ?v al) \<subseteq> insert (Metric ss) M"
    using metric assms(3) by fastforce
  show ?thesis
    unfolding unfold
    using update_keyed [OF assms(1) key] distinct_update [OF assms(2)] dom_update [of ?fp ?v al] sub
    by simp
qed

lemma foldl_addSampleStream_inv:
  assumes "map (\<lambda>p. fingerprint (Metric (snd p))) al = map fst al"
    and "distinct (map fst al)"
    and "Metric ` snd ` set al \<subseteq> M"
  shows "map (\<lambda>p. fingerprint (Metric (snd p)))
           (foldl (addSampleStream fingerprint mergeSampleSets) al sss)
           = map fst (foldl (addSampleStream fingerprint mergeSampleSets) al sss) \<and>
         distinct (map fst (foldl (addSampleStream fingerprint mergeSampleSets) al sss)) \<and>
         fst ` set (foldl (addSampleStream fingerprint mergeSampleSets) al sss)
           = fst ` set al \<union> (\<lambda>ss. fingerprint (Metric ss)) ` set sss \<and>
         Metric ` snd ` set (foldl (addSampleStream fingerprint mergeSampleSets) al sss)
           \<subseteq> M \<union> Metric ` set sss"
  using assms
proof (induction sss arbitrary: al M)
  case Nil
  then show ?case by simp
next
  case (Cons ss sss)
  let ?al = "addSampleStream fingerprint mergeSampleSets al ss"
  note one = addSampleStream_inv [OF Cons.prems, of mergeSampleSets ss]
  have a: "map (\<lambda>p. fingerprint (Metric (snd p))) ?al = map fst ?al" using one by blast
  have b: "distinct (map fst ?al)" using one by blast
  have c: "Metric ` snd ` set ?al \<subseteq> insert (Metric ss) M" using one by blast
  have d: "fst ` set ?al = insert (fingerprint (Metric ss)) (fst ` set al)" using one by blast
  note ih = Cons.IH [OF a b c]
  have "fst ` set (foldl (addSampleStream fingerprint mergeSampleSets) ?al sss)
        = fst ` set al \<union> (\<lambda>ss. fingerprint (Metric ss)) ` set (ss # sss)"
    using ih d by auto
  moreover have "Metric ` snd ` set (foldl (addSampleStream fingerprint mergeSampleSets) ?al sss)
        \<subseteq> M \<union> Metric ` set (ss # sss)"
    using ih by auto
  ultimately show ?case using ih by simp
qed

lemma mergeMatrices_inv:
  "map (\<lambda>s. fingerprint (Metric s)) (mergeMatrices fingerprint mergeSampleSets results)
     = map fst (foldl (\<lambda>al result. foldl (addSampleStream fingerprint mergeSampleSets) al result) [] results) \<and>
   distinct (map fst (foldl (\<lambda>al result. foldl (addSampleStream fingerprint mergeSampleSets) al result) [] results)) \<and>
   set (map fst (foldl (\<lambda>al result. foldl (addSampleStream fingerprint mergeSampleSets) al result) [] results))
     = (\<lambda>s. fingerprint (Metric s)) ` (\<Union>result\<in>set results. set result) \<and>
   Metric ` set (mergeMatrices fingerprint mergeSampleSets results)
     \<subseteq> Metric ` (\<Union>result\<in>set results. set result)"
proof -
  let ?al = "foldl (addSampleStream fingerprint mergeSampleSets) [] (concat results)"
  have fold: "foldl (\<lambda>al result. foldl (addSampleStream fingerprint mergeSampleSets) al result) [] results = ?al"
    using foldl_foldl_concat [of "addSampleStream fingerprint mergeSampleSets" "\<lambda>r. r" "[]" results]
    by simp
  have inv: "map (\<lambda>p. fingerprint (Metric (snd p))) ?al = map fst ?al \<and>
         distinct (map fst ?al) \<and>
         fst ` set ?al = fst ` set [] \<union> (\<lambda>ss. fingerprint (Metric ss)) ` set (concat results) \<and>
         Metric ` snd ` set ?al \<subseteq> {} \<union> Metric ` set (concat results)"
    using foldl_addSampleStream_inv
      [where fingerprint = fingerprint and al = "[]" and M = "{}"
         and mergeSampleSets = mergeSampleSets and sss = "concat results"]
    by simp
  have out: "mergeMatrices fingerprint mergeSampleSets results = map snd ?al"
    by (simp add: mergeMatrices_def fold)
  have "map (\<lambda>s. fingerprint (Metric s)) (map snd ?al) = map fst ?al"
    using inv by (simp add: comp_def)
  moreover have "set (map fst ?al) = (\<lambda>s. fingerprint (Metric s)) ` (\<Union>result\<in>set results. set result)"
    using inv by simp
  moreover have "Metric ` set (map snd ?al) \<subseteq> Metric ` (\<Union>result\<in>set results. set result)"
    using inv by (simp add: image_image)
  ultimately show ?thesis using inv out fold by simp
qed

lemma exampleResults_inj:
  "inj_on exampleFingerprint (Metric ` (\<Union>result\<in>set exampleResults. set result))"
  by (auto simp: inj_on_def exampleFingerprint_def exampleResults_def)

section \<open>Claims\<close>

subsection \<open>C1: the sample merger\<close>

text \<open>
  C1. For two sample sequences, each sorted ascending by timestamp with no timestamp twice,
  \<open>mergeSamples a b\<close> is sorted ascending by timestamp, has no timestamp twice, its timestamps
  are those of \<open>a\<close> together with those of \<open>b\<close>, the samples it holds at the timestamps of
  \<open>a\<close> are exactly the samples of \<open>a\<close> (so on a shared timestamp one sample is emitted, the
  left argument's), and \<open>mergeSamples a a = a\<close>.
\<close>

theorem mergeSamples_sorted_dedup:
  assumes "sorted (map Sample.TimestampMs a)" and "distinct (map Sample.TimestampMs a)"
    and "sorted (map Sample.TimestampMs b)" and "distinct (map Sample.TimestampMs b)"
  shows "sorted (map Sample.TimestampMs (mergeSamples a b)) \<and>
         distinct (map Sample.TimestampMs (mergeSamples a b)) \<and>
         set (map Sample.TimestampMs (mergeSamples a b))
           = set (map Sample.TimestampMs a) \<union> set (map Sample.TimestampMs b) \<and>
         filter (\<lambda>s. Sample.TimestampMs s \<in> set (map Sample.TimestampMs a)) (mergeSamples a b) = a \<and>
         mergeSamples a a = a"
proof -
  have sa: "sorted_wrt (<) (map Sample.TimestampMs a)" and sb: "sorted_wrt (<) (map Sample.TimestampMs b)"
    using assms by (simp_all add: strict_sorted_iff)
  have self: "mergeSamples a a = a"
    using mergeSamples_cases [of a a] by (auto simp: mergeTs_same)
  consider (merge) "mergeSamples a b = mergeTs Sample.TimestampMs a b"
    | (same) "mergeSamples a b = a" "map Sample.TimestampMs a = map Sample.TimestampMs b"
    using mergeSamples_cases [of a b] by blast
  then show ?thesis
  proof cases
    case merge
    have "sorted_wrt (<) (map Sample.TimestampMs (mergeSamples a b))"
      using sorted_mergeTs [OF sa sb] merge by simp
    then have "sorted (map Sample.TimestampMs (mergeSamples a b))"
      and "distinct (map Sample.TimestampMs (mergeSamples a b))"
      by (simp_all add: strict_sorted_iff)
    moreover have "set (map Sample.TimestampMs (mergeSamples a b))
        = set (map Sample.TimestampMs a) \<union> set (map Sample.TimestampMs b)"
      using set_ts_mergeTs [of Sample.TimestampMs a b] merge by simp
    moreover have "filter (\<lambda>s. Sample.TimestampMs s \<in> set (map Sample.TimestampMs a)) (mergeSamples a b) = a"
      using filter_mergeTs_left [OF sa sb] merge by simp
    ultimately show ?thesis using self by simp
  next
    case same
    have "set (map Sample.TimestampMs b) = set (map Sample.TimestampMs a)"
      using same(2) by simp
    moreover have "filter (\<lambda>s. Sample.TimestampMs s \<in> set (map Sample.TimestampMs a)) a = a"
      by (simp add: filter_id_conv)
    ultimately show ?thesis using assms same(1) self by simp
  qed
qed

theorem mergeSamples_sorted_dedup_witness:
  "sorted (map Sample.TimestampMs [\<lparr>Sample.Value = 1, TimestampMs = 0\<rparr>, \<lparr>Sample.Value = 2, TimestampMs = 60000\<rparr>]) \<and>
   distinct (map Sample.TimestampMs [\<lparr>Sample.Value = 1, TimestampMs = 0\<rparr>, \<lparr>Sample.Value = 2, TimestampMs = 60000\<rparr>]) \<and>
   sorted (map Sample.TimestampMs [\<lparr>Sample.Value = 9, TimestampMs = 60000\<rparr>, \<lparr>Sample.Value = 3, TimestampMs = 70000\<rparr>]) \<and>
   distinct (map Sample.TimestampMs [\<lparr>Sample.Value = 9, TimestampMs = 60000\<rparr>, \<lparr>Sample.Value = 3, TimestampMs = 70000\<rparr>]) \<and>
   set (map Sample.TimestampMs (mergeSamples
     [\<lparr>Sample.Value = 1, TimestampMs = 0\<rparr>, \<lparr>Sample.Value = 2, TimestampMs = 60000\<rparr>]
     [\<lparr>Sample.Value = 9, TimestampMs = 60000\<rparr>, \<lparr>Sample.Value = 3, TimestampMs = 70000\<rparr>]))
     = {0, 60000, 70000} \<and>
   filter (\<lambda>s. Sample.TimestampMs s \<in> {0, 60000}) (mergeSamples
     [\<lparr>Sample.Value = 1, TimestampMs = 0\<rparr>, \<lparr>Sample.Value = 2, TimestampMs = 60000\<rparr>]
     [\<lparr>Sample.Value = 9, TimestampMs = 60000\<rparr>, \<lparr>Sample.Value = 3, TimestampMs = 70000\<rparr>])
     = [\<lparr>Sample.Value = 1, TimestampMs = 0\<rparr>, \<lparr>Sample.Value = 2, TimestampMs = 60000\<rparr>]"
  using mergeSamples_sorted_dedup
    [of "[\<lparr>Sample.Value = 1, TimestampMs = 0\<rparr>, \<lparr>Sample.Value = 2, TimestampMs = 60000\<rparr>]"
        "[\<lparr>Sample.Value = 9, TimestampMs = 60000\<rparr>, \<lparr>Sample.Value = 3, TimestampMs = 70000\<rparr>]"]
  by (simp add: insert_commute)

subsection \<open>C2: the aggregator and queued batches\<close>

text \<open>
  C2 fails on the code. A callback pushes one chunk-series batch, \<^verbatim>\<open>Do\<close> returns, and the
  main goroutine offers the stop signal while the batch is still in the channel: the
  \<^verbatim>\<open>select\<close> has two cases that can proceed and may take \<^verbatim>\<open>case <-doneCh\<close>. The aggregator
  has then returned with the batch queued and the map empty, and no step is left that
  would fold it.
\<close>

theorem aggregator_stops_with_batch_queued:
  "reachable exampleKey 1
     (\<lparr>chCS = [[upChunks [7]]], chTS = [], hashToChunkseries = [], hashToTimeSeries = [],
       wg = 1, agg = AggReturned, pc = WgWait\<rparr> :: nat engine) \<and>
   (\<forall>s'. \<not> step exampleKey 1
      (\<lparr>chCS = [[upChunks [7]]], chTS = [], hashToChunkseries = [], hashToTimeSeries = [],
        wg = 1, agg = AggReturned, pc = WgWait\<rparr> :: nat engine) s')"
proof -
  let ?s = "\<lparr>chCS = [[upChunks [7]]], chTS = [], hashToChunkseries = [], hashToTimeSeries = [],
       wg = 2, agg = Selecting, pc = SendDone\<rparr> :: nat engine"
  have "step exampleKey 1 ?s (?s\<lparr>agg := AggReturned, wg := wg ?s - 1, pc := WgWait\<rparr>)"
    by (rule step.recv_done) simp_all
  then have "reachable exampleKey 1 (?s\<lparr>agg := AggReturned, wg := wg ?s - 1, pc := WgWait\<rparr>)"
    by (rule reachable.next_state [OF reach_pushed_sent])
  then have r: "reachable exampleKey 1
     (\<lparr>chCS = [[upChunks [7]]], chTS = [], hashToChunkseries = [], hashToTimeSeries = [],
       wg = 1, agg = AggReturned, pc = WgWait\<rparr> :: nat engine)"
    by simp
  have "\<not> step exampleKey 1
      (\<lparr>chCS = [[upChunks [7]]], chTS = [], hashToChunkseries = [], hashToTimeSeries = [],
        wg = 1, agg = AggReturned, pc = WgWait\<rparr> :: nat engine) s'" for s'
  proof
    assume "step exampleKey 1
      (\<lparr>chCS = [[upChunks [7]]], chTS = [], hashToChunkseries = [], hashToTimeSeries = [],
        wg = 1, agg = AggReturned, pc = WgWait\<rparr> :: nat engine) s'"
    then show False by cases simp_all
  qed
  then show ?thesis using r by simp
qed

subsection \<open>C3: the wait for the aggregator\<close>

text \<open>
  C3 fails on the code. \<^verbatim>\<open>wg.Add(2)\<close> is followed by one goroutine with one deferred
  \<^verbatim>\<open>wg.Done()\<close>: the counter is 2 until the aggregator returns and 1 from then on, never 0.
  No reachable state is past \<^verbatim>\<open>wg.Wait()\<close>, and a state at \<^verbatim>\<open>wg.Wait()\<close> (every callback
  has returned, the aggregator has consumed the stop signal and returned) has no step at
  all: the engine waits forever and returns neither a response nor the fan-out error.
\<close>

theorem wg_wait_never_returns:
  "reachable keyOf cap s \<Longrightarrow>
   pc s \<noteq> AfterWait \<and>
   (pc s = WgWait \<longrightarrow> agg s = AggReturned \<and> wg s = 1 \<and> (\<forall>s'. \<not> step keyOf cap s s'))"
proof -
  assume r: "reachable keyOf cap s"
  note inv = engine_invariant [OF r]
  have stuck: "\<not> step keyOf cap s s'" if w: "pc s = WgWait" for s'
  proof
    assume "step keyOf cap s s'"
    then show False using inv w by cases auto
  qed
  show ?thesis using inv stuck by auto
qed

theorem wg_wait_never_returns_witness:
  "reachable exampleKey 1
     (\<lparr>chCS = [], chTS = [], hashToChunkseries = [], hashToTimeSeries = [],
       wg = 1, agg = AggReturned, pc = WgWait\<rparr> :: nat engine) \<and>
   (\<forall>s'. \<not> step exampleKey 1
      (\<lparr>chCS = [], chTS = [], hashToChunkseries = [], hashToTimeSeries = [],
        wg = 1, agg = AggReturned, pc = WgWait\<rparr> :: nat engine) s')"
  using wg_wait_never_returns [OF reach_waiting] reach_waiting by simp

subsection \<open>C4: the exemplar merger\<close>

text \<open>
  C4 as stated fails: two exemplars with the same timestamp, different label sets and
  different values, one in each input list. Only the left one is in the output.
\<close>

theorem mergeExemplarSets_dedups_on_timestamp:
  "Exemplar.TimestampMs \<lparr>Exemplar.Labels = [(''trace_id'', ''a'')], Value = 1, TimestampMs = 10\<rparr>
     = Exemplar.TimestampMs \<lparr>Exemplar.Labels = [(''trace_id'', ''b'')], Value = 2, TimestampMs = 10\<rparr> \<and>
   Exemplar.Labels \<lparr>Exemplar.Labels = [(''trace_id'', ''a'')], Value = 1, TimestampMs = 10\<rparr>
     \<noteq> Exemplar.Labels \<lparr>Exemplar.Labels = [(''trace_id'', ''b'')], Value = 2, TimestampMs = 10\<rparr> \<and>
   mergeExemplarSets
     [\<lparr>Exemplar.Labels = [(''trace_id'', ''a'')], Value = 1, TimestampMs = 10\<rparr>]
     [\<lparr>Exemplar.Labels = [(''trace_id'', ''b'')], Value = 2, TimestampMs = 10\<rparr>]
   = [\<lparr>Exemplar.Labels = [(''trace_id'', ''a'')], Value = 1, TimestampMs = 10\<rparr>] \<and>
   \<lparr>Exemplar.Labels = [(''trace_id'', ''b'')], Value = 2, TimestampMs = 10\<rparr>
     \<notin> set (mergeExemplarSets
       [\<lparr>Exemplar.Labels = [(''trace_id'', ''a'')], Value = 1, TimestampMs = 10\<rparr>]
       [\<lparr>Exemplar.Labels = [(''trace_id'', ''b'')], Value = 2, TimestampMs = 10\<rparr>])"
  by (simp add: mergeExemplarSets_def mergeExemplarSetsLoop.simps)

text \<open>
  C4, amended. The exemplar merge deduplicates on the timestamp alone, whatever the label
  sets and the values: for two exemplar lists, each sorted by timestamp with no timestamp
  twice, the output holds every exemplar of the left list and, of the right list, exactly
  those whose timestamp does not occur in the left list; it is sorted by timestamp and has
  no timestamp twice.
\<close>

theorem mergeExemplarSets_keeps_left_drops_shared:
  assumes "sorted (map Exemplar.TimestampMs a)" and "distinct (map Exemplar.TimestampMs a)"
    and "sorted (map Exemplar.TimestampMs b)" and "distinct (map Exemplar.TimestampMs b)"
  shows "set (mergeExemplarSets a b)
           = set a \<union> set (filter (\<lambda>y. Exemplar.TimestampMs y \<notin> Exemplar.TimestampMs ` set a) b) \<and>
         sorted (map Exemplar.TimestampMs (mergeExemplarSets a b)) \<and>
         distinct (map Exemplar.TimestampMs (mergeExemplarSets a b))"
proof -
  have sa: "sorted_wrt (<) (map Exemplar.TimestampMs a)" and sb: "sorted_wrt (<) (map Exemplar.TimestampMs b)"
    using assms by (simp_all add: strict_sorted_iff)
  have "sorted_wrt (<) (map Exemplar.TimestampMs (mergeExemplarSets a b))"
    using sorted_mergeTs [OF sa sb] by (simp add: mergeExemplarSets_mergeTs)
  then have "sorted (map Exemplar.TimestampMs (mergeExemplarSets a b))"
    and "distinct (map Exemplar.TimestampMs (mergeExemplarSets a b))"
    by (simp_all add: strict_sorted_iff)
  then show ?thesis
    using set_mergeTs_strict [OF sa sb] by (simp add: mergeExemplarSets_mergeTs)
qed

theorem mergeExemplarSets_keeps_left_drops_shared_witness:
  "sorted (map Exemplar.TimestampMs [\<lparr>Exemplar.Labels = [(''trace_id'', ''a'')], Value = 1, TimestampMs = 10\<rparr>]) \<and>
   distinct (map Exemplar.TimestampMs [\<lparr>Exemplar.Labels = [(''trace_id'', ''a'')], Value = 1, TimestampMs = 10\<rparr>]) \<and>
   sorted (map Exemplar.TimestampMs
     [\<lparr>Exemplar.Labels = [(''trace_id'', ''b'')], Value = 2, TimestampMs = 10\<rparr>,
      \<lparr>Exemplar.Labels = [(''trace_id'', ''c'')], Value = 3, TimestampMs = 20\<rparr>]) \<and>
   distinct (map Exemplar.TimestampMs
     [\<lparr>Exemplar.Labels = [(''trace_id'', ''b'')], Value = 2, TimestampMs = 10\<rparr>,
      \<lparr>Exemplar.Labels = [(''trace_id'', ''c'')], Value = 3, TimestampMs = 20\<rparr>]) \<and>
   set (mergeExemplarSets
     [\<lparr>Exemplar.Labels = [(''trace_id'', ''a'')], Value = 1, TimestampMs = 10\<rparr>]
     [\<lparr>Exemplar.Labels = [(''trace_id'', ''b'')], Value = 2, TimestampMs = 10\<rparr>,
      \<lparr>Exemplar.Labels = [(''trace_id'', ''c'')], Value = 3, TimestampMs = 20\<rparr>])
   = {\<lparr>Exemplar.Labels = [(''trace_id'', ''c'')], Value = 3, TimestampMs = 20\<rparr>,
      \<lparr>Exemplar.Labels = [(''trace_id'', ''a'')], Value = 1, TimestampMs = 10\<rparr>}"
  using mergeExemplarSets_keeps_left_drops_shared
    [of "[\<lparr>Exemplar.Labels = [(''trace_id'', ''a'')], Value = 1, TimestampMs = 10\<rparr>]"
        "[\<lparr>Exemplar.Labels = [(''trace_id'', ''b'')], Value = 2, TimestampMs = 10\<rparr>,
          \<lparr>Exemplar.Labels = [(''trace_id'', ''c'')], Value = 3, TimestampMs = 20\<rparr>]"]
  by simp

subsection \<open>C5: series identity in the non-streaming merge\<close>

text \<open>
  C5 as stated fails, whatever the fingerprint function is: label sets are unboundedly many
  and fingerprints are 64 bits, so two distinct label sets share a fingerprint, and the two
  series that carry them are folded into one output series.
\<close>

theorem distinct_label_sets_merged:
  "\<forall>fingerprint mergeSampleSets. \<exists>m1 m2 v1 v2.
     m1 \<noteq> m2 \<and>
     length (mergeMatrices fingerprint mergeSampleSets
               [[\<lparr>Metric = m1, Values = v1\<rparr>], [\<lparr>Metric = m2, Values = v2\<rparr>]]) = 1"
proof (intro allI)
  fix fingerprint :: "Metric \<Rightarrow> 64 word"
    and mergeSampleSets :: "SamplePair list \<Rightarrow> SamplePair list \<Rightarrow> SamplePair list"
  let ?f = "\<lambda>s :: string. fingerprint [''__name__'' \<mapsto> s]"
  have "\<not> inj ?f"
  proof
    assume "inj ?f"
    moreover have "finite (range ?f)" by (rule finite_subset [OF subset_UNIV]) simp
    ultimately have "finite (UNIV :: string set)" by (rule finite_imageD [rotated])
    then show False using infinite_UNIV_listI by blast
  qed
  then obtain s1 s2 where ne: "s1 \<noteq> s2" and eq: "?f s1 = ?f s2"
    by (auto simp: inj_def)
  let ?m1 = "[''__name__'' \<mapsto> s1]" and ?m2 = "[''__name__'' \<mapsto> s2]"
  have "?m1 \<noteq> ?m2" using ne by (metis map_upd_eqD1)
  moreover have "length (mergeMatrices fingerprint mergeSampleSets
               [[\<lparr>Metric = ?m1, Values = []\<rparr>], [\<lparr>Metric = ?m2, Values = []\<rparr>]]) = 1"
    using eq by (simp add: mergeMatrices_def addSampleStream_def Let_def)
  ultimately show "\<exists>m1 m2 v1 v2.
     m1 \<noteq> m2 \<and>
     length (mergeMatrices fingerprint mergeSampleSets
               [[\<lparr>Metric = m1, Values = v1\<rparr>], [\<lparr>Metric = m2, Values = v2\<rparr>]]) = 1"
    by blast
qed

text \<open>
  C5, amended. Two series are folded into the same accumulator if and only if the
  fingerprints of their label sets are equal: the output matrix has exactly one series for
  each fingerprint that occurs in the replicas' results, so series with equal label sets are
  always merged. When the fingerprint is injective on the label sets that occur in the
  results, the output has exactly one series for each of these label sets.
\<close>

theorem mergeMatrices_one_series_per_fingerprint:
  "distinct (map (\<lambda>s. fingerprint (Metric s)) (mergeMatrices fingerprint mergeSampleSets results)) \<and>
   set (map (\<lambda>s. fingerprint (Metric s)) (mergeMatrices fingerprint mergeSampleSets results))
     = (\<lambda>s. fingerprint (Metric s)) ` (\<Union>result\<in>set results. set result) \<and>
   (inj_on fingerprint (Metric ` (\<Union>result\<in>set results. set result)) \<longrightarrow>
      distinct (map Metric (mergeMatrices fingerprint mergeSampleSets results)) \<and>
      set (map Metric (mergeMatrices fingerprint mergeSampleSets results))
        = Metric ` (\<Union>result\<in>set results. set result))"
proof -
  let ?out = "mergeMatrices fingerprint mergeSampleSets results"
  let ?in = "\<Union>result\<in>set results. set result"
  note inv = mergeMatrices_inv [of fingerprint mergeSampleSets results]
  have d: "distinct (map (\<lambda>s. fingerprint (Metric s)) ?out)"
    using inv by simp
  have s: "set (map (\<lambda>s. fingerprint (Metric s)) ?out) = (\<lambda>s. fingerprint (Metric s)) ` ?in"
    using inv by simp
  have sub: "Metric ` set ?out \<subseteq> Metric ` ?in"
    using inv by blast
  have dm: "distinct (map Metric ?out)"
  proof -
    have "distinct (map fingerprint (map Metric ?out))" using d by (simp add: comp_def)
    then show ?thesis using distinct_map [of fingerprint "map Metric ?out"] by blast
  qed
  have sm: "set (map Metric ?out) = Metric ` ?in"
    if inj: "inj_on fingerprint (Metric ` ?in)"
  proof
    show "set (map Metric ?out) \<subseteq> Metric ` ?in" using sub by simp
    show "Metric ` ?in \<subseteq> set (map Metric ?out)"
    proof
      fix m assume m: "m \<in> Metric ` ?in"
      then have "fingerprint m \<in> (\<lambda>s. fingerprint (Metric s)) ` ?in" by auto
      then have "fingerprint m \<in> set (map (\<lambda>s. fingerprint (Metric s)) ?out)" using s by simp
      then obtain o' where o': "o' \<in> set ?out" and fp: "fingerprint (Metric o') = fingerprint m"
        by auto
      have "Metric o' \<in> Metric ` ?in" using o' sub by blast
      then have "Metric o' = m" using inj m fp by (auto dest: inj_onD)
      then show "m \<in> set (map Metric ?out)" using o' by auto
    qed
  qed
  show ?thesis using d s dm sm by blast
qed

theorem mergeMatrices_one_series_per_fingerprint_witness:
  "inj_on exampleFingerprint (Metric ` (\<Union>result\<in>set exampleResults. set result)) \<and>
   distinct (map Metric (mergeMatrices exampleFingerprint (\<lambda>a b. a @ b) exampleResults)) \<and>
   set (map Metric (mergeMatrices exampleFingerprint (\<lambda>a b. a @ b) exampleResults))
     = Metric ` (\<Union>result\<in>set exampleResults. set result) \<and>
   mergeMatrices exampleFingerprint (\<lambda>a b. a @ b) exampleResults
     = [\<lparr>Metric = [''__name__'' \<mapsto> ''up''],
         Values = [\<lparr>Timestamp = 0, Value = 1\<rparr>, \<lparr>Timestamp = 60000, Value = 2\<rparr>]\<rparr>,
        \<lparr>Metric = [''__name__'' \<mapsto> ''node''], Values = [\<lparr>Timestamp = 0, Value = 7\<rparr>]\<rparr>]"
proof -
  have "mergeMatrices exampleFingerprint (\<lambda>a b. a @ b) exampleResults
     = [\<lparr>Metric = [''__name__'' \<mapsto> ''up''],
         Values = [\<lparr>Timestamp = 0, Value = 1\<rparr>, \<lparr>Timestamp = 60000, Value = 2\<rparr>]\<rparr>,
        \<lparr>Metric = [''__name__'' \<mapsto> ''node''], Values = [\<lparr>Timestamp = 0, Value = 7\<rparr>]\<rparr>]"
    by (simp add: mergeMatrices_def addSampleStream_def exampleFingerprint_def exampleResults_def Let_def)
  then show ?thesis
    using mergeMatrices_one_series_per_fingerprint
      [of exampleFingerprint "\<lambda>a b. a @ b" exampleResults] exampleResults_inj
    by blast
qed

subsection \<open>C6: the order of the limit checks\<close>

text \<open>
  C6. For a received message the checks run in the specification's order (max chunks, max
  series for every chunk-series, max chunk bytes, max message bytes, max series for every
  raw time-series) and stop at the first that fails. In particular, when the chunk count
  passes and a chunk-series fails the series check, the message fails with the series
  check's reason, whatever the chunk-bytes check would say. When any check of the list
  fails, the loop body reports that check's message and has changed nothing but the limiter:
  nothing of the message was sent to the aggregator, and the receive loop returns the limit
  error at once, without receiving the rest of the stream. That holds wherever the message
  stands in the stream: after any messages that passed, the loop ends with the limit error
  and the state those messages left, the failing message's data not sent. Only when every
  check passes are the two batches sent (each if it is not empty).
\<close>

theorem limit_checks_in_order:
  "checkLimits q resp (limiter st) = firstViolation (specCheckOrder q resp) (limiter st) \<and>
   (AddChunks q (ChunksCount q resp) (limiter st) = (None, lmid) \<longrightarrow>
    addSeriesAll (AddSeries q) (map TimeSeriesChunk.Labels (Chunkseries resp)) lmid = (Some msg, lfail) \<longrightarrow>
    handleResp q resp st = (Some msg, st\<lparr>limiter := lfail\<rparr>)) \<and>
   (firstViolation (specCheckOrder q resp) (limiter st) = (Some m, lv) \<longrightarrow>
    handleResp q resp st = (Some m, st\<lparr>limiter := lv\<rparr>) \<and>
    recvLoop q isCanceled addr (resp # rest) fin st = (Inl (LimitError m), st\<lparr>limiter := lv\<rparr>)) \<and>
   (firstViolation (specCheckOrder q resp) (limiter st) = (None, lv) \<longrightarrow>
    handleResp q resp st =
      (None,
       st\<lparr>limiter := lv,
          sentCS := (if length (Chunkseries resp) > 0
                     then sentCS st @ [Chunkseries resp] else sentCS st),
          sentTS := (if length (QueryStreamResponse.Timeseries resp) > 0
                     then sentTS st @ [QueryStreamResponse.Timeseries resp] else sentTS st)\<rparr>)) \<and>
   (recvLoop q isCanceled addr pre None st0 = (Inr r, st) \<longrightarrow>
    firstViolation (specCheckOrder q resp) (limiter st) = (Some m, lv) \<longrightarrow>
    recvLoop q isCanceled addr (pre @ resp # rest) fin st0
      = (Inl (LimitError m), st\<lparr>limiter := lv\<rparr>))"
proof (intro conjI impI)
  show "checkLimits q resp (limiter st) = firstViolation (specCheckOrder q resp) (limiter st)"
    by (rule checkLimits_spec)
next
  assume "AddChunks q (ChunksCount q resp) (limiter st) = (None, lmid)"
    and "addSeriesAll (AddSeries q) (map TimeSeriesChunk.Labels (Chunkseries resp)) lmid = (Some msg, lfail)"
  then show "handleResp q resp st = (Some msg, st\<lparr>limiter := lfail\<rparr>)"
    by (simp add: handleResp_def checkLimits_def)
next
  assume v: "firstViolation (specCheckOrder q resp) (limiter st) = (Some m, lv)"
  show "handleResp q resp st = (Some m, st\<lparr>limiter := lv\<rparr>)"
    using v by (rule handleResp_violation)
  then show "recvLoop q isCanceled addr (resp # rest) fin st = (Inl (LimitError m), st\<lparr>limiter := lv\<rparr>)"
    by simp
next
  assume "firstViolation (specCheckOrder q resp) (limiter st) = (None, lv)"
  then show "handleResp q resp st =
      (None,
       st\<lparr>limiter := lv,
          sentCS := (if length (Chunkseries resp) > 0
                     then sentCS st @ [Chunkseries resp] else sentCS st),
          sentTS := (if length (QueryStreamResponse.Timeseries resp) > 0
                     then sentTS st @ [QueryStreamResponse.Timeseries resp] else sentTS st)\<rparr>)"
    by (rule handleResp_pass)
next
  assume p: "recvLoop q isCanceled addr pre None st0 = (Inr r, st)"
    and v: "firstViolation (specCheckOrder q resp) (limiter st) = (Some m, lv)"
  have "recvLoop q isCanceled addr (pre @ resp # rest) fin st0
        = recvLoop q isCanceled addr (resp # rest) fin st"
    using p by (rule recvLoop_append_passed)
  then show "recvLoop q isCanceled addr (pre @ resp # rest) fin st0
      = (Inl (LimitError m), st\<lparr>limiter := lv\<rparr>)"
    using handleResp_violation [OF v] by simp
qed

theorem limit_checks_in_order_witness:
  "firstViolation (specCheckOrder countingLimiter smallResp) (limiter exampleCbState) = (None, 1) \<and>
   handleResp countingLimiter smallResp exampleCbState
     = (None, exampleCbState\<lparr>limiter := 1, sentCS := [[upChunks [0]]]\<rparr>) \<and>
   recvLoop countingLimiter (\<lambda>err. err = ''context canceled'') ''ingester-1'' [smallResp] None
       exampleCbState
     = (Inr \<lparr>Chunkseries = [], QueryStreamResponse.Timeseries = []\<rparr>,
        exampleCbState\<lparr>limiter := 1, sentCS := [[upChunks [0]]]\<rparr>) \<and>
   AddChunks countingLimiter (ChunksCount countingLimiter exampleResp) 1 = (None, 1) \<and>
   addSeriesAll (AddSeries countingLimiter)
     (map TimeSeriesChunk.Labels (Chunkseries exampleResp)) 1 = (Some ''max series'', 3) \<and>
   fst (AddChunkBytes countingLimiter (ChunksSize countingLimiter exampleResp) 3)
     = Some ''max chunk bytes'' \<and>
   firstViolation (specCheckOrder countingLimiter exampleResp) 1 = (Some ''max series'', 3) \<and>
   handleResp countingLimiter exampleResp
       (exampleCbState\<lparr>limiter := 1, sentCS := [[upChunks [0]]]\<rparr>)
     = (Some ''max series'', exampleCbState\<lparr>limiter := 3, sentCS := [[upChunks [0]]]\<rparr>) \<and>
   recvLoop countingLimiter (\<lambda>err. err = ''context canceled'') ''ingester-1''
       [smallResp, exampleResp, smallResp] None exampleCbState
     = (Inl (LimitError ''max series''),
        exampleCbState\<lparr>limiter := 3, sentCS := [[upChunks [0]]]\<rparr>)"
proof -
  let ?st1 = "exampleCbState\<lparr>limiter := 1, sentCS := [[upChunks [0]]]\<rparr>"
  let ?isC = "\<lambda>err :: string. err = ''context canceled''"
  note pass = limit_checks_in_order
    [where q = countingLimiter and resp = smallResp and st = exampleCbState and lv = 1
       and isCanceled = ?isC and addr = "''ingester-1''"]
  have h1: "handleResp countingLimiter smallResp exampleCbState = (None, ?st1)"
    using pass smallResp_passes
    by (simp add: smallResp_def exampleCbState_def)
  then have loop1: "recvLoop countingLimiter ?isC ''ingester-1'' [smallResp] None exampleCbState
     = (Inr \<lparr>Chunkseries = [], QueryStreamResponse.Timeseries = []\<rparr>, ?st1)"
    by simp
  note fail = limit_checks_in_order
    [where q = countingLimiter and resp = exampleResp and st = ?st1 and lv = 3
       and m = "''max series''" and msg = "''max series''" and lmid = 1 and lfail = 3
       and isCanceled = ?isC and addr = "''ingester-1''" and pre = "[smallResp]"
       and rest = "[smallResp]" and fin = None and ?st0.0 = exampleCbState
       and r = "\<lparr>Chunkseries = [], QueryStreamResponse.Timeseries = []\<rparr>"]
  have a: "AddChunks countingLimiter (ChunksCount countingLimiter exampleResp) 1 = (None, 1)"
    by (simp add: countingLimiter_def)
  have b: "addSeriesAll (AddSeries countingLimiter)
     (map TimeSeriesChunk.Labels (Chunkseries exampleResp)) 1 = (Some ''max series'', 3)"
    by (simp add: countingLimiter_def exampleResp_def)
  have c: "fst (AddChunkBytes countingLimiter (ChunksSize countingLimiter exampleResp) 3)
     = Some ''max chunk bytes''"
    by (simp add: countingLimiter_def exampleResp_def upChunks_def)
  have v: "firstViolation (specCheckOrder countingLimiter exampleResp) (limiter ?st1)
     = (Some ''max series'', 3)"
    by (rule exampleResp_fails)
  have h2: "handleResp countingLimiter exampleResp ?st1 = (Some ''max series'', ?st1\<lparr>limiter := 3\<rparr>)"
    using fail v by blast
  have loop2: "recvLoop countingLimiter ?isC ''ingester-1'' ([smallResp] @ exampleResp # [smallResp])
       None exampleCbState
     = (Inl (LimitError ''max series''), ?st1\<lparr>limiter := 3\<rparr>)"
    using fail v loop1 by blast
  show ?thesis
    using smallResp_passes h1 loop1 a b c v h2 loop2 by (simp add: exampleCbState_def)
qed

subsection \<open>C7: the replica selector\<close>

text \<open>
  C7. When the tenant resolves, the selector decides in this order: (1) sharding strategy
  is shuffle, and shard size and lookback period are both positive: the read replication
  set of the tenant's shuffle-sharded subring with lookback; (2) otherwise, shard-by-all-labels
  is off, a matcher is supplied and the metric-name matcher found is an equality matcher:
  the ring's replica set for the shard key of tenant and metric name; (3) otherwise the
  read replication set of the whole ring.
\<close>

theorem GetIngestersForQuery_priority:
  assumes "TenantID env ctx = Inr userID"
  shows
    "(ShardingStrategy cfg = ShardingStrategyShuffle env \<and>
      0 < IngestionTenantShardSize env userID \<and> 0 < ShuffleShardingLookbackPeriod cfg \<longrightarrow>
      GetIngestersForQuery env cfg ring ctx matchers
      = GetReplicationSetForOperation env
          (ShuffleShardWithLookback env ring userID (IngestionTenantShardSize env userID)
             (ShuffleShardingLookbackPeriod cfg) (Now env))) \<and>
     (\<not> (ShardingStrategy cfg = ShardingStrategyShuffle env \<and>
         0 < IngestionTenantShardSize env userID \<and> 0 < ShuffleShardingLookbackPeriod cfg) \<longrightarrow>
      \<not> ShardByAllLabels cfg \<and> matchers \<noteq> [] \<and>
      MetricNameMatcherFromMatchers env matchers = Some m \<and> Matcher.Type m = MatchEqual \<longrightarrow>
      GetIngestersForQuery env cfg ring ctx matchers
      = Get env ring (shardByMetricName env userID (Matcher.Value m))) \<and>
     (\<not> (ShardingStrategy cfg = ShardingStrategyShuffle env \<and>
         0 < IngestionTenantShardSize env userID \<and> 0 < ShuffleShardingLookbackPeriod cfg) \<longrightarrow>
      \<not> (\<not> ShardByAllLabels cfg \<and> matchers \<noteq> [] \<and>
         (\<exists>m'. MetricNameMatcherFromMatchers env matchers = Some m' \<and> Matcher.Type m' = MatchEqual)) \<longrightarrow>
      GetIngestersForQuery env cfg ring ctx matchers = GetReplicationSetForOperation env ring)"
proof (intro conjI impI)
  assume "ShardingStrategy cfg = ShardingStrategyShuffle env \<and>
      0 < IngestionTenantShardSize env userID \<and> 0 < ShuffleShardingLookbackPeriod cfg"
  then show "GetIngestersForQuery env cfg ring ctx matchers
      = GetReplicationSetForOperation env
          (ShuffleShardWithLookback env ring userID (IngestionTenantShardSize env userID)
             (ShuffleShardingLookbackPeriod cfg) (Now env))"
    using assms by (simp add: GetIngestersForQuery_def Let_def)
next
  assume "\<not> (ShardingStrategy cfg = ShardingStrategyShuffle env \<and>
         0 < IngestionTenantShardSize env userID \<and> 0 < ShuffleShardingLookbackPeriod cfg)"
    and "\<not> ShardByAllLabels cfg \<and> matchers \<noteq> [] \<and>
      MetricNameMatcherFromMatchers env matchers = Some m \<and> Matcher.Type m = MatchEqual"
  then show "GetIngestersForQuery env cfg ring ctx matchers
      = Get env ring (shardByMetricName env userID (Matcher.Value m))"
    using assms by (auto simp: GetIngestersForQuery_def Let_def)
next
  assume "\<not> (ShardingStrategy cfg = ShardingStrategyShuffle env \<and>
         0 < IngestionTenantShardSize env userID \<and> 0 < ShuffleShardingLookbackPeriod cfg)"
    and "\<not> (\<not> ShardByAllLabels cfg \<and> matchers \<noteq> [] \<and>
         (\<exists>m'. MetricNameMatcherFromMatchers env matchers = Some m' \<and> Matcher.Type m' = MatchEqual))"
  then show "GetIngestersForQuery env cfg ring ctx matchers = GetReplicationSetForOperation env ring"
    using assms by (auto simp: GetIngestersForQuery_def Let_def split: option.splits)
qed

theorem GetIngestersForQuery_priority_witness:
  "TenantID exampleEnv (Some ''tenant-1'') = Inr ''tenant-1'' \<and>
   GetIngestersForQuery exampleEnv
     \<lparr>ShardingStrategy = ''shuffle-sharding'', ShuffleShardingLookbackPeriod = 3600000000000,
      ShardByAllLabels = False\<rparr>
     [''ing-1'', ''ing-2'', ''ing-3''] (Some ''tenant-1'')
     [\<lparr>Matcher.Type = MatchEqual, Name = ''__name__'', Value = ''up''\<rparr>]
   = Inr [''ing-1'', ''ing-2''] \<and>
   GetIngestersForQuery exampleEnv
     \<lparr>ShardingStrategy = ''default'', ShuffleShardingLookbackPeriod = 3600000000000,
      ShardByAllLabels = False\<rparr>
     [''ing-1'', ''ing-2'', ''ing-3''] (Some ''tenant-1'')
     [\<lparr>Matcher.Type = MatchEqual, Name = ''__name__'', Value = ''up''\<rparr>]
   = Inr [''ing-3''] \<and>
   GetIngestersForQuery exampleEnv
     \<lparr>ShardingStrategy = ''default'', ShuffleShardingLookbackPeriod = 3600000000000,
      ShardByAllLabels = False\<rparr>
     [''ing-1'', ''ing-2'', ''ing-3''] (Some ''tenant-1'')
     [\<lparr>Matcher.Type = MatchRegexp, Name = ''__name__'', Value = ''up.*''\<rparr>]
   = Inr [''ing-1'', ''ing-2'', ''ing-3'']"
proof -
  have t: "TenantID exampleEnv (Some ''tenant-1'') = Inr ''tenant-1''"
    by (simp add: exampleEnv_def)
  have "GetIngestersForQuery exampleEnv
     \<lparr>ShardingStrategy = ''shuffle-sharding'', ShuffleShardingLookbackPeriod = 3600000000000,
      ShardByAllLabels = False\<rparr>
     [''ing-1'', ''ing-2'', ''ing-3''] (Some ''tenant-1'')
     [\<lparr>Matcher.Type = MatchEqual, Name = ''__name__'', Value = ''up''\<rparr>]
   = Inr [''ing-1'', ''ing-2'']"
    using GetIngestersForQuery_priority [OF t,
      where cfg = "\<lparr>ShardingStrategy = ''shuffle-sharding'',
                     ShuffleShardingLookbackPeriod = 3600000000000, ShardByAllLabels = False\<rparr>"
        and ring = "[''ing-1'', ''ing-2'', ''ing-3'']"
        and matchers = "[\<lparr>Matcher.Type = MatchEqual, Name = ''__name__'', Value = ''up''\<rparr>]"
        and m = "\<lparr>Matcher.Type = MatchEqual, Name = ''__name__'', Value = ''up''\<rparr>"]
    by (simp add: exampleEnv_def)
  moreover have "GetIngestersForQuery exampleEnv
     \<lparr>ShardingStrategy = ''default'', ShuffleShardingLookbackPeriod = 3600000000000,
      ShardByAllLabels = False\<rparr>
     [''ing-1'', ''ing-2'', ''ing-3''] (Some ''tenant-1'')
     [\<lparr>Matcher.Type = MatchEqual, Name = ''__name__'', Value = ''up''\<rparr>]
   = Inr [''ing-3'']"
    using GetIngestersForQuery_priority [OF t,
      where cfg = "\<lparr>ShardingStrategy = ''default'',
                     ShuffleShardingLookbackPeriod = 3600000000000, ShardByAllLabels = False\<rparr>"
        and ring = "[''ing-1'', ''ing-2'', ''ing-3'']"
        and matchers = "[\<lparr>Matcher.Type = MatchEqual, Name = ''__name__'', Value = ''up''\<rparr>]"
        and m = "\<lparr>Matcher.Type = MatchEqual, Name = ''__name__'', Value = ''up''\<rparr>"]
    by (simp add: exampleEnv_def)
  moreover have "GetIngestersForQuery exampleEnv
     \<lparr>ShardingStrategy = ''default'', ShuffleShardingLookbackPeriod = 3600000000000,
      ShardByAllLabels = False\<rparr>
     [''ing-1'', ''ing-2'', ''ing-3''] (Some ''tenant-1'')
     [\<lparr>Matcher.Type = MatchRegexp, Name = ''__name__'', Value = ''up.*''\<rparr>]
   = Inr [''ing-1'', ''ing-2'', ''ing-3'']"
    using GetIngestersForQuery_priority [OF t,
      where cfg = "\<lparr>ShardingStrategy = ''default'',
                     ShuffleShardingLookbackPeriod = 3600000000000, ShardByAllLabels = False\<rparr>"
        and ring = "[''ing-1'', ''ing-2'', ''ing-3'']"
        and matchers = "[\<lparr>Matcher.Type = MatchRegexp, Name = ''__name__'', Value = ''up.*''\<rparr>]"
        and m = "\<lparr>Matcher.Type = MatchRegexp, Name = ''__name__'', Value = ''up.*''\<rparr>"]
    by (simp add: exampleEnv_def)
  ultimately show ?thesis using t by simp
qed

subsection \<open>C8: the exemplar response reconciler\<close>

text \<open>
  C8. For every list of per-replica exemplar responses the reconciler returns a response
  (the index into \<^verbatim>\<open>result\<close> never leaves it) in which no canonical label-set encoding
  occurs twice, whose entries are in the ascending (byte-wise lexicographic) order of that
  encoding, and which has an entry for exactly the encodings that occur in the inputs. The
  output is a function of the inputs, so the same inputs give the same output.
\<close>

theorem mergeExemplarQueryResponses_sorted_one_per_key:
  "\<exists>out. mergeExemplarQueryResponses lblsKey results = Some out \<and>
     distinct (map (\<lambda>ts. lblsKey (TimeSeries.Labels ts)) (ExemplarQueryResponse.Timeseries out)) \<and>
     sorted (map (\<lambda>ts. lblsKey (TimeSeries.Labels ts)) (ExemplarQueryResponse.Timeseries out)) \<and>
     set (map (\<lambda>ts. lblsKey (TimeSeries.Labels ts)) (ExemplarQueryResponse.Timeseries out))
       = (\<lambda>ts. lblsKey (TimeSeries.Labels ts)) ` (\<Union>r\<in>set results. set (ExemplarQueryResponse.Timeseries r))"
proof -
  obtain keys m where fold:
    "foldl (\<lambda>st r. foldl (addExemplarSeries lblsKey) st (ExemplarQueryResponse.Timeseries r)) ([], []) results = (keys, m)"
    by (cases "foldl (\<lambda>st r. foldl (addExemplarSeries lblsKey) st (ExemplarQueryResponse.Timeseries r)) ([], []) results") auto
  have fold': "foldl (addExemplarSeries lblsKey) ([], []) (concat (map ExemplarQueryResponse.Timeseries results)) = (keys, m)"
    using fold by (simp add: foldl_foldl_concat)
  have inv0: "map fst m = keys \<and> distinct keys \<and>
         map (\<lambda>p. lblsKey (TimeSeries.Labels (snd p))) m = keys \<and>
         set keys = set [] \<union> (\<lambda>ts. lblsKey (TimeSeries.Labels ts)) ` set (concat (map ExemplarQueryResponse.Timeseries results))"
    by (rule foldl_addExemplarSeries_inv [OF _ _ _ fold']) simp_all
  have inv: "map fst m = keys \<and> distinct keys \<and>
         map (\<lambda>p. lblsKey (TimeSeries.Labels (snd p))) m = keys \<and>
         set keys = (\<lambda>ts. lblsKey (TimeSeries.Labels ts)) ` (\<Union>r\<in>set results. set (ExemplarQueryResponse.Timeseries r))"
    using inv0 by simp
  let ?look = "\<lambda>k. case map_of m k of None \<Rightarrow> zeroTimeSeries | Some v \<Rightarrow> v"
  have len: "length (sort keys) = length m"
    using inv by (metis length_map length_sort)
  have fill: "fillResult m (replicate (length m) zeroTimeSeries) 0 (sort keys)
              = Some (map ?look (sort keys))"
    using fillResult_Some [of 0 "sort keys" "replicate (length m) zeroTimeSeries" m] len by simp
  let ?out = "\<lparr>ExemplarQueryResponse.Timeseries = map ?look (sort keys)\<rparr>"
  have out: "mergeExemplarQueryResponses lblsKey results = Some ?out"
    using fold fill by (simp add: mergeExemplarQueryResponses_def)
  have self: "\<And>k. k \<in> set (sort keys) \<Longrightarrow> lblsKey (TimeSeries.Labels (?look k)) = k"
  proof -
    fix k assume "k \<in> set (sort keys)"
    then have "k \<in> set (map fst m)" using inv by simp
    moreover have "distinct (map fst m)" using inv by simp
    moreover have "map (\<lambda>p. lblsKey (TimeSeries.Labels (snd p))) m = map fst m" using inv by simp
    ultimately show "lblsKey (TimeSeries.Labels (?look k)) = k"
      using keyed_lookup [of m "\<lambda>v. lblsKey (TimeSeries.Labels v)" k zeroTimeSeries] by simp
  qed
  have "map (\<lambda>k. lblsKey (TimeSeries.Labels (?look k))) (sort keys) = sort keys"
    using self by (rule map_idI)
  then have eq: "map (\<lambda>ts. lblsKey (TimeSeries.Labels ts)) (ExemplarQueryResponse.Timeseries ?out) = sort keys"
    by (simp add: comp_def)
  have d1: "distinct (sort keys)" and d2: "sorted (sort keys)"
    and d3: "set (sort keys)
       = (\<lambda>ts. lblsKey (TimeSeries.Labels ts)) ` (\<Union>r\<in>set results. set (ExemplarQueryResponse.Timeseries r))"
    using inv by simp_all
  show ?thesis
  proof (intro exI conjI)
    show "mergeExemplarQueryResponses lblsKey results = Some ?out" by (rule out)
    show "distinct (map (\<lambda>ts. lblsKey (TimeSeries.Labels ts)) (ExemplarQueryResponse.Timeseries ?out))"
      unfolding eq by (rule d1)
    show "sorted (map (\<lambda>ts. lblsKey (TimeSeries.Labels ts)) (ExemplarQueryResponse.Timeseries ?out))"
      unfolding eq by (rule d2)
    show "set (map (\<lambda>ts. lblsKey (TimeSeries.Labels ts)) (ExemplarQueryResponse.Timeseries ?out))
       = (\<lambda>ts. lblsKey (TimeSeries.Labels ts)) ` (\<Union>r\<in>set results. set (ExemplarQueryResponse.Timeseries r))"
      unfolding eq by (rule d3)
  qed
qed

subsection \<open>C9: canceled calls and the failure counter\<close>

text \<open>
  C9 fails on the code, in three of the four places where a per-replica call can fail. For
  an error that \<^verbatim>\<open>IsGRPCContextCanceled\<close> recognises: the callbacks of the non-streaming
  query and of the exemplar query add one to the replica's failure counter, and so does the
  streaming callback when opening the stream fails; only an error of \<^verbatim>\<open>stream.Recv()\<close>
  leaves the counter as it was.
\<close>

theorem failure_counter_on_canceled_call:
  assumes "isCanceled err" and "getClient addr = Inr client"
  shows
    "(query client = Inl err \<longrightarrow>
        ingesterQueryFailures (snd (queryIngestersCallback getClient query fromQueryResponse addr m)) addr
        = ingesterQueryFailures m addr + 1) \<and>
     (queryExemplars client = Inl err \<longrightarrow>
        ingesterQueryFailures (snd (queryIngestersExemplarsCallback getClient queryExemplars addr m)) addr
        = ingesterQueryFailures m addr + 1) \<and>
     (queryStream client = Inl err \<longrightarrow>
        ingesterQueryFailures
          (counters (snd (queryStreamCallback q isCanceled getClient queryStream addr st))) addr
        = ingesterQueryFailures (counters st) addr + 1) \<and>
     (queryStream client = Inr \<lparr>msgs = rs, final = Some err\<rparr> \<longrightarrow>
        ingesterQueryFailures
          (counters (snd (queryStreamCallback q isCanceled getClient queryStream addr st))) addr
        = ingesterQueryFailures (counters st) addr)"
proof (intro conjI impI)
  assume "query client = Inl err"
  then show "ingesterQueryFailures (snd (queryIngestersCallback getClient query fromQueryResponse addr m)) addr
        = ingesterQueryFailures m addr + 1"
    using assms(2) by (simp add: queryIngestersCallback_def incFailures_def incQueries_def)
next
  assume "queryExemplars client = Inl err"
  then show "ingesterQueryFailures (snd (queryIngestersExemplarsCallback getClient queryExemplars addr m)) addr
        = ingesterQueryFailures m addr + 1"
    using assms(2) by (simp add: queryIngestersExemplarsCallback_def incFailures_def incQueries_def)
next
  assume "queryStream client = Inl err"
  then show "ingesterQueryFailures
          (counters (snd (queryStreamCallback q isCanceled getClient queryStream addr st))) addr
        = ingesterQueryFailures (counters st) addr + 1"
    using assms(2) by (simp add: queryStreamCallback_def incFailures_def incQueries_def)
next
  assume "queryStream client = Inr \<lparr>msgs = rs, final = Some err\<rparr>"
  then show "ingesterQueryFailures
          (counters (snd (queryStreamCallback q isCanceled getClient queryStream addr st))) addr
        = ingesterQueryFailures (counters st) addr"
    using assms
      recvLoop_canceled [of "Some err" err isCanceled q addr rs "st\<lparr>counters := incQueries addr (counters st)\<rparr>"]
    by (simp add: queryStreamCallback_def incQueries_def)
qed

theorem failure_counter_on_canceled_call_witness:
  "(\<lambda>err. err = ''context canceled'') ''context canceled'' \<and>
   (Inr :: string \<Rightarrow> string + string) ''ingester-1'' = Inr ''ingester-1'' \<and>
   ingesterQueryFailures
     (snd (queryIngestersCallback (Inr :: string \<Rightarrow> string + string)
             (\<lambda>client. Inl ''context canceled'' :: string + nat) id ''ingester-1''
             \<lparr>ingesterQueries = (\<lambda>addr. 0), ingesterQueryFailures = (\<lambda>addr. 0)\<rparr>)) ''ingester-1'' = 1 \<and>
   ingesterQueryFailures
     (snd (queryIngestersExemplarsCallback (Inr :: string \<Rightarrow> string + string)
             (\<lambda>client. Inl ''context canceled'' :: string + nat) ''ingester-1''
             \<lparr>ingesterQueries = (\<lambda>addr. 0), ingesterQueryFailures = (\<lambda>addr. 0)\<rparr>)) ''ingester-1'' = 1 \<and>
   ingesterQueryFailures
     (counters (snd (queryStreamCallback exampleLimiter (\<lambda>err. err = ''context canceled'')
             (Inr :: string \<Rightarrow> string + string)
             (\<lambda>client. Inl ''context canceled'' :: string + (nat, string) stream) ''ingester-1''
             exampleCbState))) ''ingester-1'' = 1 \<and>
   ingesterQueryFailures
     (counters (snd (queryStreamCallback exampleLimiter (\<lambda>err. err = ''context canceled'')
             (Inr :: string \<Rightarrow> string + string)
             (\<lambda>client. Inr \<lparr>msgs = [], final = Some ''context canceled''\<rparr>) ''ingester-1''
             exampleCbState))) ''ingester-1'' = 0"
proof -
  have "ingesterQueryFailures
     (snd (queryIngestersCallback (Inr :: string \<Rightarrow> string + string)
             (\<lambda>client. Inl ''context canceled'' :: string + nat) id ''ingester-1''
             \<lparr>ingesterQueries = (\<lambda>addr. 0), ingesterQueryFailures = (\<lambda>addr. 0)\<rparr>)) ''ingester-1'' = 1 \<and>
   ingesterQueryFailures
     (snd (queryIngestersExemplarsCallback (Inr :: string \<Rightarrow> string + string)
             (\<lambda>client. Inl ''context canceled'' :: string + nat) ''ingester-1''
             \<lparr>ingesterQueries = (\<lambda>addr. 0), ingesterQueryFailures = (\<lambda>addr. 0)\<rparr>)) ''ingester-1'' = 1 \<and>
   ingesterQueryFailures
     (counters (snd (queryStreamCallback exampleLimiter (\<lambda>err. err = ''context canceled'')
             (Inr :: string \<Rightarrow> string + string)
             (\<lambda>client. Inl ''context canceled'' :: string + (nat, string) stream) ''ingester-1''
             exampleCbState))) ''ingester-1'' = 1"
    using failure_counter_on_canceled_call
      [where isCanceled = "\<lambda>err. err = ''context canceled''" and err = "''context canceled''"
         and getClient = "Inr :: string \<Rightarrow> string + string" and addr = "''ingester-1''"
         and client = "''ingester-1''"
         and query = "\<lambda>client. Inl ''context canceled'' :: string + nat" and fromQueryResponse = id
         and m = "\<lparr>ingesterQueries = (\<lambda>addr. 0), ingesterQueryFailures = (\<lambda>addr. 0)\<rparr>"
         and queryExemplars = "\<lambda>client. Inl ''context canceled'' :: string + nat"
         and queryStream = "\<lambda>client. Inl ''context canceled'' :: string + (nat, string) stream"
         and q = exampleLimiter and st = exampleCbState and rs = "[]"]
    by (simp add: exampleCbState_def)
  moreover have "ingesterQueryFailures
     (counters (snd (queryStreamCallback exampleLimiter (\<lambda>err. err = ''context canceled'')
             (Inr :: string \<Rightarrow> string + string)
             (\<lambda>client. Inr \<lparr>msgs = [], final = Some ''context canceled''\<rparr>) ''ingester-1''
             exampleCbState))) ''ingester-1'' = 0"
    using failure_counter_on_canceled_call
      [where isCanceled = "\<lambda>err. err = ''context canceled''" and err = "''context canceled''"
         and getClient = "Inr :: string \<Rightarrow> string + string" and addr = "''ingester-1''"
         and client = "''ingester-1''"
         and query = "\<lambda>client. Inl ''context canceled'' :: string + nat" and fromQueryResponse = id
         and m = "\<lparr>ingesterQueries = (\<lambda>addr. 0), ingesterQueryFailures = (\<lambda>addr. 0)\<rparr>"
         and queryExemplars = "\<lambda>client. Inl ''context canceled'' :: string + nat"
         and queryStream = "\<lambda>client. Inr \<lparr>msgs = ([] :: nat QueryStreamResponse list), final = Some ''context canceled''\<rparr>"
         and rs = "[]" and q = exampleLimiter and st = exampleCbState]
    by (simp add: exampleCbState_def)
  ultimately show ?thesis by simp
qed

subsection \<open>C10: one entry per series in the streamed response\<close>

text \<open>
  C10. Take a run of the engine in which the aggregator has received the chunk-series \<open>css\<close>
  and the time-series \<open>tss\<close> (every state the engine can reach is the end of such a run,
  lemma \<open>reachable_received\<close>), and a response built by enumerating each of the two maps
  once, in whatever order. Then each canonical label-set key is in at most one entry of the
  response's chunk-series list and in at most one entry of its time-series list; the keys
  of the entries are exactly the keys of the series received; and every entry is the fold of
  all the series received under its key: it has the labels of the last of them, and as
  chunks the chunks of all of them in the order received, or as samples the samples of all
  of them merged by \<open>mergeSamples\<close> in the order received.
\<close>

theorem response_one_entry_per_key:
  assumes "received keyOf cap s css tss"
    and "mset (Chunkseries resp) = mset (Chunkseries (buildResponse s))"
    and "mset (QueryStreamResponse.Timeseries resp)
         = mset (QueryStreamResponse.Timeseries (buildResponse s))"
  shows "distinct (map (\<lambda>series. keyOf (TimeSeriesChunk.Labels series)) (Chunkseries resp)) \<and>
         distinct (map (\<lambda>series. keyOf (TimeSeries.Labels series))
                    (QueryStreamResponse.Timeseries resp)) \<and>
         set (map (\<lambda>series. keyOf (TimeSeriesChunk.Labels series)) (Chunkseries resp))
           = (\<lambda>series. keyOf (TimeSeriesChunk.Labels series)) ` set css \<and>
         set (map (\<lambda>series. keyOf (TimeSeries.Labels series)) (QueryStreamResponse.Timeseries resp))
           = (\<lambda>series. keyOf (TimeSeries.Labels series)) ` set tss \<and>
         (\<forall>e\<in>set (Chunkseries resp).
            e = \<lparr>TimeSeriesChunk.Labels =
                   TimeSeriesChunk.Labels
                     (last (filter (\<lambda>x. keyOf (TimeSeriesChunk.Labels x)
                                         = keyOf (TimeSeriesChunk.Labels e)) css)),
                 Chunks =
                   concat (map Chunks
                     (filter (\<lambda>x. keyOf (TimeSeriesChunk.Labels x)
                                   = keyOf (TimeSeriesChunk.Labels e)) css))\<rparr>) \<and>
         (\<forall>e\<in>set (QueryStreamResponse.Timeseries resp).
            e = \<lparr>TimeSeries.Labels =
                   TimeSeries.Labels
                     (last (filter (\<lambda>x. keyOf (TimeSeries.Labels x)
                                         = keyOf (TimeSeries.Labels e)) tss)),
                 Samples =
                   foldl mergeSamples []
                     (map Samples
                        (filter (\<lambda>x. keyOf (TimeSeries.Labels x)
                                      = keyOf (TimeSeries.Labels e)) tss)),
                 Exemplars = []\<rparr>)"
proof -
  let ?kc = "\<lambda>series :: 'a TimeSeriesChunk. keyOf (TimeSeriesChunk.Labels series)"
  let ?kt = "\<lambda>series :: TimeSeries. keyOf (TimeSeries.Labels series)"
  note inv = reachable_keyed [OF received_reachable [OF assms(1)]]
  note maps = received_maps [OF assms(1)]
  have pc: "mset (Chunkseries resp) = mset (map snd (hashToChunkseries s))"
    using assms(2) by (simp add: buildResponse_def)
  have pt: "mset (QueryStreamResponse.Timeseries resp) = mset (map snd (hashToTimeSeries s))"
    using assms(3) by (simp add: buildResponse_def)
  have kc: "map (\<lambda>p. ?kc (snd p)) (hashToChunkseries s) = map fst (hashToChunkseries s)"
    and dc: "distinct (map fst (hashToChunkseries s))"
    and kt: "map (\<lambda>p. ?kt (snd p)) (hashToTimeSeries s) = map fst (hashToTimeSeries s)"
    and dt: "distinct (map fst (hashToTimeSeries s))"
    using inv by blast+
  have d1: "distinct (map ?kc (Chunkseries resp))"
    by (rule distinct_keys_of_enumeration [OF kc dc pc])
  have d2: "distinct (map ?kt (QueryStreamResponse.Timeseries resp))"
    by (rule distinct_keys_of_enumeration [OF kt dt pt])
  have lookc: "\<And>k. map_of (hashToChunkseries s) k =
     (if filter (\<lambda>x. ?kc x = k) css = [] then None
      else Some \<lparr>TimeSeriesChunk.Labels = TimeSeriesChunk.Labels (last (filter (\<lambda>x. ?kc x = k) css)),
                 Chunks = concat (map Chunks (filter (\<lambda>x. ?kc x = k) css))\<rparr>)"
    using maps map_of_foldl_addChunkSeries [of keyOf css] by simp
  have lookt: "\<And>k. map_of (hashToTimeSeries s) k =
     (if filter (\<lambda>x. ?kt x = k) tss = [] then None
      else Some \<lparr>TimeSeries.Labels = TimeSeries.Labels (last (filter (\<lambda>x. ?kt x = k) tss)),
                 Samples = foldl mergeSamples [] (map Samples (filter (\<lambda>x. ?kt x = k) tss)),
                 Exemplars = []\<rparr>)"
    using maps map_of_foldl_addTimeSeries [of keyOf tss] by simp
  have s1: "set (map ?kc (Chunkseries resp)) = ?kc ` set css"
  proof -
    have "set (map ?kc (Chunkseries resp)) = dom (map_of (hashToChunkseries s))"
      by (rule keys_of_enumeration [OF kc pc])
    also have "\<dots> = {k. filter (\<lambda>x. ?kc x = k) css \<noteq> []}"
      by (auto simp: dom_def lookc)
    also have "\<dots> = ?kc ` set css"
      by (auto simp: filter_empty_conv)
    finally show ?thesis .
  qed
  have s2: "set (map ?kt (QueryStreamResponse.Timeseries resp)) = ?kt ` set tss"
  proof -
    have "set (map ?kt (QueryStreamResponse.Timeseries resp)) = dom (map_of (hashToTimeSeries s))"
      by (rule keys_of_enumeration [OF kt pt])
    also have "\<dots> = {k. filter (\<lambda>x. ?kt x = k) tss \<noteq> []}"
      by (auto simp: dom_def lookt)
    also have "\<dots> = ?kt ` set tss"
      by (auto simp: filter_empty_conv)
    finally show ?thesis .
  qed
  have e1: "e = \<lparr>TimeSeriesChunk.Labels =
                   TimeSeriesChunk.Labels (last (filter (\<lambda>x. ?kc x = ?kc e) css)),
                 Chunks = concat (map Chunks (filter (\<lambda>x. ?kc x = ?kc e) css))\<rparr>"
    if mem: "e \<in> set (Chunkseries resp)" for e
  proof -
    obtain k where k: "map_of (hashToChunkseries s) k = Some e"
      using entry_of_enumeration [OF dc pc mem] by blast
    have ne: "filter (\<lambda>x. ?kc x = k) css \<noteq> []"
      using k lookc [of k] by (auto split: if_splits)
    have e: "e = \<lparr>TimeSeriesChunk.Labels = TimeSeriesChunk.Labels (last (filter (\<lambda>x. ?kc x = k) css)),
                 Chunks = concat (map Chunks (filter (\<lambda>x. ?kc x = k) css))\<rparr>"
      using k lookc [of k] ne by simp
    have "?kc e = ?kc (last (filter (\<lambda>x. ?kc x = k) css))"
      by (subst e) simp
    also have "\<dots> = k" using ne by (rule last_filter_key)
    finally have "?kc e = k" .
    then show ?thesis using e by simp
  qed
  have e2: "e = \<lparr>TimeSeries.Labels = TimeSeries.Labels (last (filter (\<lambda>x. ?kt x = ?kt e) tss)),
                 Samples = foldl mergeSamples [] (map Samples (filter (\<lambda>x. ?kt x = ?kt e) tss)),
                 Exemplars = []\<rparr>"
    if mem: "e \<in> set (QueryStreamResponse.Timeseries resp)" for e
  proof -
    obtain k where k: "map_of (hashToTimeSeries s) k = Some e"
      using entry_of_enumeration [OF dt pt mem] by blast
    have ne: "filter (\<lambda>x. ?kt x = k) tss \<noteq> []"
      using k lookt [of k] by (auto split: if_splits)
    have e: "e = \<lparr>TimeSeries.Labels = TimeSeries.Labels (last (filter (\<lambda>x. ?kt x = k) tss)),
                 Samples = foldl mergeSamples [] (map Samples (filter (\<lambda>x. ?kt x = k) tss)),
                 Exemplars = []\<rparr>"
      using k lookt [of k] ne by simp
    have "?kt e = ?kt (last (filter (\<lambda>x. ?kt x = k) tss))"
      by (subst e) simp
    also have "\<dots> = k" using ne by (rule last_filter_key)
    finally have "?kt e = k" .
    then show ?thesis using e by simp
  qed
  show ?thesis using d1 d2 s1 s2 e1 e2 by blast
qed

theorem response_one_entry_per_key_witness:
  "received exampleKey 2
     ((engineInit :: nat engine)
        \<lparr>hashToChunkseries :=
           [(''__name__=up,'', upChunks [1, 2]),
            (''__name__=a,'', \<lparr>TimeSeriesChunk.Labels = [(''__name__'', ''a'')], Chunks = [3]\<rparr>)],
         hashToTimeSeries :=
           [(''__name__=up,'',
             upSeries [\<lparr>Sample.Value = 1, TimestampMs = 0\<rparr>, \<lparr>Sample.Value = 2, TimestampMs = 60000\<rparr>,
                       \<lparr>Sample.Value = 3, TimestampMs = 70000\<rparr>])]\<rparr>)
     [upChunks [1], upChunks [2], \<lparr>TimeSeriesChunk.Labels = [(''__name__'', ''a'')], Chunks = [3]\<rparr>]
     [upSeries [\<lparr>Sample.Value = 1, TimestampMs = 0\<rparr>, \<lparr>Sample.Value = 2, TimestampMs = 60000\<rparr>],
      upSeries [\<lparr>Sample.Value = 9, TimestampMs = 60000\<rparr>, \<lparr>Sample.Value = 3, TimestampMs = 70000\<rparr>]] \<and>
   mset [\<lparr>TimeSeriesChunk.Labels = [(''__name__'', ''a'')], Chunks = [3]\<rparr>, upChunks [1, 2]]
     = mset (Chunkseries (buildResponse
        ((engineInit :: nat engine)
          \<lparr>hashToChunkseries :=
             [(''__name__=up,'', upChunks [1, 2]),
              (''__name__=a,'', \<lparr>TimeSeriesChunk.Labels = [(''__name__'', ''a'')], Chunks = [3]\<rparr>)],
           hashToTimeSeries :=
             [(''__name__=up,'',
               upSeries [\<lparr>Sample.Value = 1, TimestampMs = 0\<rparr>, \<lparr>Sample.Value = 2, TimestampMs = 60000\<rparr>,
                         \<lparr>Sample.Value = 3, TimestampMs = 70000\<rparr>])]\<rparr>))) \<and>
   mset [upSeries [\<lparr>Sample.Value = 1, TimestampMs = 0\<rparr>, \<lparr>Sample.Value = 2, TimestampMs = 60000\<rparr>,
                   \<lparr>Sample.Value = 3, TimestampMs = 70000\<rparr>]]
     = mset (QueryStreamResponse.Timeseries (buildResponse
        ((engineInit :: nat engine)
          \<lparr>hashToChunkseries :=
             [(''__name__=up,'', upChunks [1, 2]),
              (''__name__=a,'', \<lparr>TimeSeriesChunk.Labels = [(''__name__'', ''a'')], Chunks = [3]\<rparr>)],
           hashToTimeSeries :=
             [(''__name__=up,'',
               upSeries [\<lparr>Sample.Value = 1, TimestampMs = 0\<rparr>, \<lparr>Sample.Value = 2, TimestampMs = 60000\<rparr>,
                         \<lparr>Sample.Value = 3, TimestampMs = 70000\<rparr>])]\<rparr>))) \<and>
   distinct (map (\<lambda>series. exampleKey (TimeSeriesChunk.Labels series))
     [\<lparr>TimeSeriesChunk.Labels = [(''__name__'', ''a'')], Chunks = [3::nat]\<rparr>, upChunks [1, 2]]) \<and>
   set (map (\<lambda>series. exampleKey (TimeSeriesChunk.Labels series))
     [\<lparr>TimeSeriesChunk.Labels = [(''__name__'', ''a'')], Chunks = [3::nat]\<rparr>, upChunks [1, 2]])
     = (\<lambda>series. exampleKey (TimeSeriesChunk.Labels series)) `
         set [upChunks [1], upChunks [2],
              \<lparr>TimeSeriesChunk.Labels = [(''__name__'', ''a'')], Chunks = [3::nat]\<rparr>] \<and>
   upChunks [1, 2]
     = \<lparr>TimeSeriesChunk.Labels =
          TimeSeriesChunk.Labels
            (last (filter (\<lambda>x. exampleKey (TimeSeriesChunk.Labels x)
                                = exampleKey (TimeSeriesChunk.Labels (upChunks [1, 2])))
               [upChunks [1], upChunks [2],
                \<lparr>TimeSeriesChunk.Labels = [(''__name__'', ''a'')], Chunks = [3::nat]\<rparr>])),
        Chunks =
          concat (map Chunks
            (filter (\<lambda>x. exampleKey (TimeSeriesChunk.Labels x)
                          = exampleKey (TimeSeriesChunk.Labels (upChunks [1, 2])))
               [upChunks [1], upChunks [2],
                \<lparr>TimeSeriesChunk.Labels = [(''__name__'', ''a'')], Chunks = [3::nat]\<rparr>]))\<rparr> \<and>
   upSeries [\<lparr>Sample.Value = 1, TimestampMs = 0\<rparr>, \<lparr>Sample.Value = 2, TimestampMs = 60000\<rparr>,
             \<lparr>Sample.Value = 3, TimestampMs = 70000\<rparr>]
     = \<lparr>TimeSeries.Labels = [(''__name__'', ''up'')],
        Samples =
          foldl mergeSamples []
            [[\<lparr>Sample.Value = 1, TimestampMs = 0\<rparr>, \<lparr>Sample.Value = 2, TimestampMs = 60000\<rparr>],
             [\<lparr>Sample.Value = 9, TimestampMs = 60000\<rparr>, \<lparr>Sample.Value = 3, TimestampMs = 70000\<rparr>]],
        Exemplars = []\<rparr>"
  using response_one_entry_per_key [OF example_received,
      of "\<lparr>Chunkseries = [\<lparr>TimeSeriesChunk.Labels = [(''__name__'', ''a'')], Chunks = [3]\<rparr>, upChunks [1, 2]],
            QueryStreamResponse.Timeseries =
              [upSeries [\<lparr>Sample.Value = 1, TimestampMs = 0\<rparr>, \<lparr>Sample.Value = 2, TimestampMs = 60000\<rparr>,
                         \<lparr>Sample.Value = 3, TimestampMs = 70000\<rparr>]]\<rparr>"]
    example_received
  by (simp add: buildResponse_def engineInit_def upSeries_def upChunks_def exampleKey_def)

end
